theory Spec2Isabelle
  imports Main "HOL-Library.Word"
begin

unbundle bit_operations_syntax

section \<open>The non-deterministic event log of rr_log.c\<close>

text \<open>
  A shallow embedding of \<^verbatim>\<open>panda/src/rr/rr_log.c\<close>: the log entry model, the
  encoder (\<^verbatim>\<open>rr_write_item\<close> and the typed \<^verbatim>\<open>rr_record_*\<close> functions), the decoder
  (\<^verbatim>\<open>rr_read_item\<close>), the prefetch queue (\<^verbatim>\<open>rr_fill_queue\<close>, \<^verbatim>\<open>get_next_entry\<close>), the
  typed replay dispatchers and the session functions that open and close the log.

  The globals of the C file are the fields of one state record that every function takes
  and returns. A failed \<^verbatim>\<open>rr_assert\<close> (which aborts the process) and a dereference of a
  null pointer are values of the error type. The per-kind statistics counters, the
  progress printing and the snapshot handling do not influence any other variable of
  the file and are left out.
\<close>

subsection \<open>Errors\<close>

datatype rr_error =
    Null_pointer                    \<comment> \<open>dereference of NULL (rr_nondet_log, fp, rr_queue_head)\<close>
  | Bad_buffer                      \<comment> \<open>a caller's buffer is shorter than the length passed with it\<close>
  | Assert_fwrite                   \<comment> \<open>rr_fwrite: rr_assert(result == nmemb)\<close>
  | Assert_fread                    \<comment> \<open>rr_fread: rr_assert(result == nmemb)\<close>
  | Assert_in_record                \<comment> \<open>rr_write_item: rr_assert(rr_in_record())\<close>
  | Assert_in_replay                \<comment> \<open>rr_read_item: rr_assert(rr_in_replay())\<close>
  | Assert_log_not_empty            \<comment> \<open>rr_read_item: rr_assert(!rr_log_is_empty())\<close>
  | Assert_fp_not_null              \<comment> \<open>rr_read_item, rr_create_*_log: rr_assert(fp != NULL)\<close>
  | Assert_unimplemented_call       \<comment> \<open>rr_assert(0 && "Unimplemented skipped call!")\<close>
  | Assert_unimplemented_entry      \<comment> \<open>rr_assert(0 && "Unimplemented replay log entry!")\<close>
  | Assert_queue_empty              \<comment> \<open>rr_fill_queue: rr_assert(rr_queue_head == NULL && rr_queue_tail == NULL)\<close>
  | Assert_replay_input             \<comment> \<open>rr_replay_input_N: rr_assert(0), no entry is due\<close>
  | Assert_callsite                 \<comment> \<open>rr_assert(current_item->header.callsite_loc == call_site)\<close>
  | Assert_skipped_call_kind        \<comment> \<open>rr_replay_skipped_calls_internal: rr_assert(0)\<close>
  | Assert_prog_point               \<comment> \<open>an assertion inside rr_prog_point_compare\<close>

definition rr_bind :: "'e + 'a \<Rightarrow> ('a \<Rightarrow> 'e + 'b) \<Rightarrow> 'e + 'b" where
  "rr_bind m f = (case m of Inl e \<Rightarrow> Inl e | Inr x \<Rightarrow> f x)"

subsection \<open>Bytes of a scalar, host order (little endian)\<close>

type_synonym byte = "8 word"

fun le_bytes :: "nat \<Rightarrow> 'a::len word \<Rightarrow> byte list" where
  "le_bytes 0 w = []"
| "le_bytes (Suc n) w = ucast w # le_bytes n (drop_bit 8 w)"

fun le_word :: "byte list \<Rightarrow> 'a::len word" where
  "le_word [] = 0"
| "le_word (b # bs) = ucast b OR push_bit 8 (le_word bs)"

subsection \<open>Program points, entry kinds, entries\<close>

record RR_prog_point =
  guest_instr_count :: "64 word"
  pc :: "64 word"
  secondary :: "64 word"

datatype RR_log_entry_kind =
    RR_INPUT_1 | RR_INPUT_2 | RR_INPUT_4 | RR_INPUT_8
  | RR_INTERRUPT_REQUEST | RR_EXIT_REQUEST | RR_SKIPPED_CALL
  | RR_DEBUG | RR_LAST

text \<open>
  The argument structs of a skipped call, one constructor per member of the union
  \<^verbatim>\<open>RR_skipped_call_args.variant\<close>; the constructor is the field \<^verbatim>\<open>kind\<close>. A pointer
  to a buffer is the list of the bytes it points to. Arguments, in the order of the
  constructors:
  \<^item> \<^verbatim>\<open>cpu_mem_rw_args\<close>: addr, buf, len (an \<^verbatim>\<open>int\<close>);
  \<^item> \<^verbatim>\<open>cpu_mem_unmap\<close>: addr, buf, len (a \<^verbatim>\<open>hwaddr\<close>);
  \<^item> \<^verbatim>\<open>mem_region_change_args\<close>: start_addr, size, name, len, mtype, added;
  \<^item> \<^verbatim>\<open>hd_transfer_args\<close>, \<^verbatim>\<open>net_transfer_args\<close>: type, src_addr, dest_addr, num_bytes;
  \<^item> \<^verbatim>\<open>handle_packet_args\<close>: the numeric value of the pointer member as it stands in the
    file (the caller's address when recording; when decoding, the value that
    \<^verbatim>\<open>rr_read_item\<close> keeps in \<^verbatim>\<open>old_buf_addr\<close> before it points the member to a fresh
    buffer), buf, size (an \<^verbatim>\<open>int\<close>), direction.
\<close>

datatype RR_skipped_call_args =
    RR_CALL_CPU_MEM_RW "64 word" "byte list" "32 word"
  | RR_CALL_CPU_MEM_UNMAP "64 word" "byte list" "64 word"
  | RR_CALL_MEM_REGION_CHANGE "64 word" "64 word" "byte list" "32 word" "32 word" bool
  | RR_CALL_HD_TRANSFER "32 word" "64 word" "64 word" "32 word"
  | RR_CALL_NET_TRANSFER "32 word" "64 word" "64 word" "32 word"
  | RR_CALL_HANDLE_PACKET "64 word" "byte list" "32 word" "8 word"

text \<open>
  The union \<^verbatim>\<open>RR_log_entry.variant\<close> together with \<^verbatim>\<open>header.kind\<close>, which says which
  member is in use: the constructor is the kind.
\<close>

datatype RR_variant =
    Input_1 "8 word"
  | Input_2 "16 word"
  | Input_4 "32 word"
  | Input_8 "64 word"
  | Interrupt_request "32 word"
  | Exit_request "32 word"
  | Call_args RR_skipped_call_args
  | Debug
  | Last

fun kind_of :: "RR_variant \<Rightarrow> RR_log_entry_kind" where
  "kind_of (Input_1 v) = RR_INPUT_1"
| "kind_of (Input_2 v) = RR_INPUT_2"
| "kind_of (Input_4 v) = RR_INPUT_4"
| "kind_of (Input_8 v) = RR_INPUT_8"
| "kind_of (Interrupt_request v) = RR_INTERRUPT_REQUEST"
| "kind_of (Exit_request v) = RR_EXIT_REQUEST"
| "kind_of (Call_args a) = RR_SKIPPED_CALL"
| "kind_of Debug = RR_DEBUG"
| "kind_of Last = RR_LAST"

text \<open>
  \<^verbatim>\<open>RR_log_entry\<close>: the header fields and the variant. The link \<^verbatim>\<open>next\<close> is the
  list an entry stands in. A call site (\<^verbatim>\<open>RR_callsite_id\<close>) is the number of its
  enumerator.
\<close>

record RR_log_entry =
  prog_point :: RR_prog_point
  callsite_loc :: "32 word"
  file_pos :: nat
  variant :: RR_variant

definition entry_kind :: "RR_log_entry \<Rightarrow> RR_log_entry_kind" where
  "entry_kind e = kind_of (variant e)"

subsection \<open>What rr_log.h declares\<close>

text \<open>
  Modelled from the spec: the numbering of the enumeration \<^verbatim>\<open>RR_log_entry_kind\<close>, declared
  in rr_log.h (not among the sources), in the order in which section 3 of the
  specification lists the kinds; it is the 32-bit value \<^verbatim>\<open>rr_write_item\<close> stores.
\<close>

fun kind_code :: "RR_log_entry_kind \<Rightarrow> 32 word" where
  "kind_code RR_INPUT_1 = 0"
| "kind_code RR_INPUT_2 = 1"
| "kind_code RR_INPUT_4 = 2"
| "kind_code RR_INPUT_8 = 3"
| "kind_code RR_INTERRUPT_REQUEST = 4"
| "kind_code RR_EXIT_REQUEST = 5"
| "kind_code RR_SKIPPED_CALL = 6"
| "kind_code RR_DEBUG = 7"
| "kind_code RR_LAST = 8"

text \<open>
  Modelled from the spec: the numbering of the skipped-call kinds (rr_log.h), in the order
  of section 3 of the specification, which is the order of the cases in
  \<^verbatim>\<open>rr_write_item\<close>.
\<close>

fun call_kind_code :: "RR_skipped_call_args \<Rightarrow> 32 word" where
  "call_kind_code (RR_CALL_CPU_MEM_RW a b l) = 0"
| "call_kind_code (RR_CALL_CPU_MEM_UNMAP a b l) = 1"
| "call_kind_code (RR_CALL_MEM_REGION_CHANGE a sz n l m ad) = 2"
| "call_kind_code (RR_CALL_HD_TRANSFER t sa da n) = 3"
| "call_kind_code (RR_CALL_NET_TRANSFER t sa da n) = 4"
| "call_kind_code (RR_CALL_HANDLE_PACKET p b sz d) = 5"

text \<open>
  Modelled from the spec: the bytes of each struct that \<^verbatim>\<open>RR_WRITE_ITEM\<close> writes as a
  whole. The struct declarations are in rr_log.h; the fields and their widths are those
  of the table of variant payloads in section 6 of the specification, in that order
  and without padding. The pointer to the tail buffer is part of the bytes only where
  that table lists it (HANDLE_PACKET).
\<close>

definition prog_point_bytes :: "RR_prog_point \<Rightarrow> byte list" where
  "prog_point_bytes pp =
     le_bytes 8 (guest_instr_count pp) @ le_bytes 8 (pc pp) @ le_bytes 8 (secondary pp)"

definition prog_point_of_bytes :: "byte list \<Rightarrow> RR_prog_point" where
  "prog_point_of_bytes bs =
     \<lparr>guest_instr_count = le_word (take 8 bs),
      pc = le_word (take 8 (drop 8 bs)),
      secondary = le_word (take 8 (drop 16 bs))\<rparr>"

definition bool_byte :: "bool \<Rightarrow> byte" where
  "bool_byte b = (if b then 1 else 0)"

fun args_bytes :: "RR_skipped_call_args \<Rightarrow> byte list" where
  "args_bytes (RR_CALL_CPU_MEM_RW a b l) = le_bytes 8 a @ le_bytes 4 l"
| "args_bytes (RR_CALL_CPU_MEM_UNMAP a b l) = le_bytes 8 a @ le_bytes 8 l"
| "args_bytes (RR_CALL_MEM_REGION_CHANGE a sz n l m ad) =
     le_bytes 8 a @ le_bytes 8 sz @ le_bytes 4 l @ le_bytes 4 m @ [bool_byte ad]"
| "args_bytes (RR_CALL_HD_TRANSFER t sa da n) =
     le_bytes 4 t @ le_bytes 8 sa @ le_bytes 8 da @ le_bytes 4 n"
| "args_bytes (RR_CALL_NET_TRANSFER t sa da n) =
     le_bytes 4 t @ le_bytes 8 sa @ le_bytes 8 da @ le_bytes 4 n"
| "args_bytes (RR_CALL_HANDLE_PACKET p b sz d) = le_bytes 8 p @ le_bytes 4 sz @ [d]"

text \<open>\<^verbatim>\<open>sizeof\<close> of these structs, under the same layout.\<close>

fun args_sizeof :: "RR_skipped_call_args \<Rightarrow> nat" where
  "args_sizeof (RR_CALL_CPU_MEM_RW a b l) = 12"
| "args_sizeof (RR_CALL_CPU_MEM_UNMAP a b l) = 16"
| "args_sizeof (RR_CALL_MEM_REGION_CHANGE a sz n l m ad) = 25"
| "args_sizeof (RR_CALL_HD_TRANSFER t sa da n) = 24"
| "args_sizeof (RR_CALL_NET_TRANSFER t sa da n) = 24"
| "args_sizeof (RR_CALL_HANDLE_PACKET p b sz d) = 13"

text \<open>An \<^verbatim>\<open>int\<close> passed where a \<^verbatim>\<open>size_t\<close> is expected: sign extension to 64 bits.\<close>

definition size_t_of_int :: "32 word \<Rightarrow> nat" where
  "size_t_of_int n = unat (scast n :: 64 word)"

subsection \<open>The log and the globals\<close>

datatype RR_mode = RR_OFF | RR_RECORD | RR_REPLAY

datatype RR_log_type = RECORD | REPLAY

text \<open>
  \<^verbatim>\<open>RR_log\<close>. The stream \<^verbatim>\<open>fp\<close> is its position in the log file when it is open and
  \<open>None\<close> when it is NULL; the bytes of the file are the field \<open>log_file\<close> of the state.
  The field \<^verbatim>\<open>size\<close> is named \<open>log_size\<close> here.
\<close>

record RR_log =
  log_type :: RR_log_type
  fp :: "nat option"
  last_prog_point :: RR_prog_point
  bytes_read :: nat
  log_size :: nat
  item_number :: nat
  current_item :: RR_log_entry

text \<open>
  The globals. The queue between \<^verbatim>\<open>rr_queue_head\<close> and \<^verbatim>\<open>rr_queue_tail\<close> is a list (both
  pointers are NULL exactly when it is empty), and so is \<^verbatim>\<open>recycle_list\<close>. The last three
  fields are the guest's clock, which \<^verbatim>\<open>rr_prog_point()\<close> reads. \<open>guest_effects\<close> collects
  the skipped calls that replay has applied to the guest, oldest first.
\<close>

record rr_state =
  rr_mode :: RR_mode
  rr_nondet_log :: "RR_log option"
  log_file :: "byte list"
  rr_queue :: "RR_log_entry list"
  recycle_list :: "RR_log_entry list"
  rr_log_entry_history :: "RR_log_entry list"
  rr_hist_index :: nat
  panda_current_interrupt_request :: "32 word"
  rr_max_num_queue_entries :: nat
  rr_record_in_progress :: nat
  rr_skipped_callsite_location :: nat
  guest_effects :: "RR_skipped_call_args list"
  rr_guest_instr_count :: "64 word"
  guest_pc :: "64 word"
  guest_secondary :: "64 word"

text \<open>
  Modelled from the spec: \<^verbatim>\<open>rr_prog_point()\<close>, \<^verbatim>\<open>rr_get_guest_instr_count()\<close>,
  \<^verbatim>\<open>rr_in_record()\<close> and \<^verbatim>\<open>rr_in_replay()\<close> of rr_log.h: the current program point is
  the triple of the guest instruction count, the program counter and the secondary
  value; the mode tests compare \<^verbatim>\<open>rr_mode\<close>.
\<close>

definition rr_prog_point :: "rr_state \<Rightarrow> RR_prog_point" where
  "rr_prog_point s =
     \<lparr>guest_instr_count = rr_guest_instr_count s, pc = guest_pc s,
      secondary = guest_secondary s\<rparr>"

definition rr_get_guest_instr_count :: "rr_state \<Rightarrow> 64 word" where
  "rr_get_guest_instr_count s = rr_guest_instr_count s"

definition rr_in_record :: "rr_state \<Rightarrow> bool" where
  "rr_in_record s = (rr_mode s = RR_RECORD)"

definition rr_in_replay :: "rr_state \<Rightarrow> bool" where
  "rr_in_replay s = (rr_mode s = RR_REPLAY)"

definition rr_log_is_empty :: "RR_log \<Rightarrow> bool" where
  "rr_log_is_empty l = (log_type l = REPLAY \<and> log_size l = bytes_read l)"

subsection \<open>Record\<close>

text \<open>
  \<^verbatim>\<open>rr_fwrite(ptr, size, nmemb)\<close>; \<open>ptr\<close> is the memory at the pointer. \<^verbatim>\<open>fwrite\<close> writes
  at the position of the stream, over what is there and extending the file at its end,
  and returns \<open>nmemb\<close>, but 0 when \<open>size\<close> is 0 (output itself is taken not to fail).
\<close>

definition rr_fwrite :: "byte list \<Rightarrow> nat \<Rightarrow> nat \<Rightarrow> rr_state \<Rightarrow> rr_error + rr_state" where
  "rr_fwrite ptr sz nmemb s =
     (case rr_nondet_log s of
        None \<Rightarrow> Inl Null_pointer
      | Some l \<Rightarrow>
          (case fp l of
             None \<Rightarrow> Inl Null_pointer
           | Some pos \<Rightarrow>
               if length ptr < sz * nmemb then Inl Bad_buffer
               else if (if sz = 0 then 0 else nmemb) = nmemb then
                 Inr (s\<lparr>log_file :=
                          take pos (log_file s) @ take (sz * nmemb) ptr
                            @ drop (pos + sz * nmemb) (log_file s),
                        rr_nondet_log := Some (l\<lparr>fp := Some (pos + sz * nmemb)\<rparr>)\<rparr>)
               else Inl Assert_fwrite))"

text \<open>The inner switch of \<^verbatim>\<open>rr_write_item\<close>, on \<^verbatim>\<open>args->kind\<close>, after the kind is written.\<close>

fun write_call_args :: "RR_skipped_call_args \<Rightarrow> rr_state \<Rightarrow> rr_error + rr_state" where
  "write_call_args (RR_CALL_CPU_MEM_RW a b l) s =
     rr_bind (rr_fwrite (args_bytes (RR_CALL_CPU_MEM_RW a b l)) 12 1 s)
       (rr_fwrite b 1 (size_t_of_int l))"
| "write_call_args (RR_CALL_CPU_MEM_UNMAP a b l) s =
     rr_bind (rr_fwrite (args_bytes (RR_CALL_CPU_MEM_UNMAP a b l)) 16 1 s)
       (rr_fwrite b 1 (unat l))"
| "write_call_args (RR_CALL_MEM_REGION_CHANGE a sz n l m ad) s =
     rr_bind (rr_fwrite (args_bytes (RR_CALL_MEM_REGION_CHANGE a sz n l m ad)) 25 1 s)
       (rr_fwrite n 1 (unat l))"
| "write_call_args (RR_CALL_HD_TRANSFER t sa da n) s =
     rr_fwrite (args_bytes (RR_CALL_HD_TRANSFER t sa da n)) 24 1 s"
| "write_call_args (RR_CALL_NET_TRANSFER t sa da n) s =
     rr_fwrite (args_bytes (RR_CALL_NET_TRANSFER t sa da n)) 24 1 s"
| "write_call_args (RR_CALL_HANDLE_PACKET p b sz d) s =
     rr_bind (rr_fwrite (args_bytes (RR_CALL_HANDLE_PACKET p b sz d)) 13 1 s)
       (rr_fwrite b (size_t_of_int sz) 1)"

text \<open>The outer switch of \<^verbatim>\<open>rr_write_item\<close>, on \<^verbatim>\<open>item.header.kind\<close>.\<close>

fun write_variant :: "RR_variant \<Rightarrow> rr_state \<Rightarrow> rr_error + rr_state" where
  "write_variant (Input_1 v) s = rr_fwrite (le_bytes 1 v) 1 1 s"
| "write_variant (Input_2 v) s = rr_fwrite (le_bytes 2 v) 2 1 s"
| "write_variant (Input_4 v) s = rr_fwrite (le_bytes 4 v) 4 1 s"
| "write_variant (Input_8 v) s = rr_fwrite (le_bytes 8 v) 8 1 s"
| "write_variant (Interrupt_request v) s = rr_fwrite (le_bytes 4 v) 4 1 s"
| "write_variant (Exit_request v) s = rr_fwrite (le_bytes 4 v) 4 1 s"
| "write_variant (Call_args args) s =
     rr_bind (rr_fwrite (le_bytes 4 (call_kind_code args)) 4 1 s) (write_call_args args)"
| "write_variant Last s = Inr s"
| "write_variant Debug s = Inr s"

definition set_last_prog_point :: "RR_prog_point \<Rightarrow> rr_state \<Rightarrow> rr_state" where
  "set_last_prog_point pp s =
     s\<lparr>rr_nondet_log := map_option (\<lambda>l. l\<lparr>last_prog_point := pp\<rparr>) (rr_nondet_log s)\<rparr>"

definition inc_item_number :: "rr_state \<Rightarrow> rr_state" where
  "inc_item_number s =
     s\<lparr>rr_nondet_log :=
         map_option (\<lambda>l. l\<lparr>item_number := item_number l + 1\<rparr>) (rr_nondet_log s)\<rparr>"

definition rr_write_item :: "rr_state \<Rightarrow> rr_error + rr_state" where
  "rr_write_item s =
     (case rr_nondet_log s of
        None \<Rightarrow> Inl Null_pointer
      | Some l \<Rightarrow>
          (let item = current_item l in
           if rr_in_record s then
             rr_bind (rr_fwrite (prog_point_bytes (prog_point item)) 24 1 s) (\<lambda>s1.
             rr_bind (rr_fwrite (le_bytes 4 (kind_code (entry_kind item))) 4 1 s1) (\<lambda>s2.
             rr_bind (rr_fwrite (le_bytes 4 (callsite_loc item)) 4 1 s2) (\<lambda>s3.
             rr_bind (write_variant (variant item) (set_last_prog_point (prog_point item) s3))
               (\<lambda>s4. Inr (inc_item_number s4)))))
           else Inl Assert_in_record))"

text \<open>
  The first lines of every \<^verbatim>\<open>rr_record_*\<close> function: \<^verbatim>\<open>current_item\<close> is zeroed, then its
  header is set from the call site and the current program point, and its variant.
\<close>

definition set_current_item :: "32 word \<Rightarrow> RR_variant \<Rightarrow> rr_state \<Rightarrow> rr_error + rr_state" where
  "set_current_item call_site v s =
     (case rr_nondet_log s of
        None \<Rightarrow> Inl Null_pointer
      | Some l \<Rightarrow>
          Inr (s\<lparr>rr_nondet_log :=
                   Some (l\<lparr>current_item :=
                     \<lparr>prog_point = rr_prog_point s, callsite_loc = call_site,
                      file_pos = 0, variant = v\<rparr>\<rparr>)\<rparr>))"

definition rr_record_debug :: "32 word \<Rightarrow> rr_state \<Rightarrow> rr_error + rr_state" where
  "rr_record_debug call_site s = rr_bind (set_current_item call_site Debug s) rr_write_item"

definition rr_record_input_1 :: "32 word \<Rightarrow> 8 word \<Rightarrow> rr_state \<Rightarrow> rr_error + rr_state" where
  "rr_record_input_1 call_site data s =
     rr_bind (set_current_item call_site (Input_1 data) s) rr_write_item"

definition rr_record_input_2 :: "32 word \<Rightarrow> 16 word \<Rightarrow> rr_state \<Rightarrow> rr_error + rr_state" where
  "rr_record_input_2 call_site data s =
     rr_bind (set_current_item call_site (Input_2 data) s) rr_write_item"

definition rr_record_input_4 :: "32 word \<Rightarrow> 32 word \<Rightarrow> rr_state \<Rightarrow> rr_error + rr_state" where
  "rr_record_input_4 call_site data s =
     rr_bind (set_current_item call_site (Input_4 data) s) rr_write_item"

definition rr_record_input_8 :: "32 word \<Rightarrow> 64 word \<Rightarrow> rr_state \<Rightarrow> rr_error + rr_state" where
  "rr_record_input_8 call_site data s =
     rr_bind (set_current_item call_site (Input_8 data) s) rr_write_item"

text \<open>
  \<^verbatim>\<open>panda_current_interrupt_request\<close> is an \<^verbatim>\<open>int\<close> compared with a \<^verbatim>\<open>uint32_t\<close>: the
  comparison is one of 32-bit values. The cache is set before the item is written.
\<close>

definition rr_record_interrupt_request :: "32 word \<Rightarrow> 32 word \<Rightarrow> rr_state \<Rightarrow> rr_error + rr_state" where
  "rr_record_interrupt_request call_site interrupt_request s =
     (if panda_current_interrupt_request s = interrupt_request then Inr s
      else
        rr_bind (set_current_item call_site (Interrupt_request interrupt_request) s) (\<lambda>s1.
          rr_write_item (s1\<lparr>panda_current_interrupt_request := interrupt_request\<rparr>)))"

definition rr_record_exit_request :: "32 word \<Rightarrow> 32 word \<Rightarrow> rr_state \<Rightarrow> rr_error + rr_state" where
  "rr_record_exit_request call_site exit_request s =
     (if exit_request = 0 then Inr s
      else rr_bind (set_current_item call_site (Exit_request exit_request) s) rr_write_item)"

definition rr_record_cpu_mem_rw_call ::
  "32 word \<Rightarrow> 64 word \<Rightarrow> byte list \<Rightarrow> 32 word \<Rightarrow> rr_state \<Rightarrow> rr_error + rr_state" where
  "rr_record_cpu_mem_rw_call call_site addr buf len s =
     rr_bind (set_current_item call_site (Call_args (RR_CALL_CPU_MEM_RW addr buf len)) s)
       rr_write_item"

definition rr_record_cpu_mem_unmap ::
  "32 word \<Rightarrow> 64 word \<Rightarrow> byte list \<Rightarrow> 64 word \<Rightarrow> rr_state \<Rightarrow> rr_error + rr_state" where
  "rr_record_cpu_mem_unmap call_site addr buf len s =
     rr_bind (set_current_item call_site (Call_args (RR_CALL_CPU_MEM_UNMAP addr buf len)) s)
       rr_write_item"

text \<open>
  The name is a C string, given by its bytes before the terminating zero; the field
  \<^verbatim>\<open>len\<close> takes \<^verbatim>\<open>strlen(name)\<close>, cut to the 32 bits of the field.
\<close>

definition rr_record_memory_region_change ::
  "32 word \<Rightarrow> 64 word \<Rightarrow> 64 word \<Rightarrow> byte list \<Rightarrow> 32 word \<Rightarrow> bool \<Rightarrow> rr_state
     \<Rightarrow> rr_error + rr_state" where
  "rr_record_memory_region_change call_site start_addr sz name mtype added s =
     rr_bind
       (set_current_item call_site
          (Call_args (RR_CALL_MEM_REGION_CHANGE start_addr sz name (of_nat (length name))
             mtype added)) s)
       rr_write_item"

definition rr_record_hd_transfer ::
  "32 word \<Rightarrow> 32 word \<Rightarrow> 64 word \<Rightarrow> 64 word \<Rightarrow> 32 word \<Rightarrow> rr_state \<Rightarrow> rr_error + rr_state" where
  "rr_record_hd_transfer call_site transfer_type src_addr dest_addr num_bytes s =
     rr_bind
       (set_current_item call_site
          (Call_args (RR_CALL_HD_TRANSFER transfer_type src_addr dest_addr num_bytes)) s)
       rr_write_item"

definition rr_record_net_transfer ::
  "32 word \<Rightarrow> 32 word \<Rightarrow> 64 word \<Rightarrow> 64 word \<Rightarrow> 32 word \<Rightarrow> rr_state \<Rightarrow> rr_error + rr_state" where
  "rr_record_net_transfer call_site transfer_type src_addr dest_addr num_bytes s =
     rr_bind
       (set_current_item call_site
          (Call_args (RR_CALL_NET_TRANSFER transfer_type src_addr dest_addr num_bytes)) s)
       rr_write_item"

text \<open>The first argument is the address held by the pointer \<^verbatim>\<open>buf\<close>, the second its bytes.\<close>

definition rr_record_handle_packet_call ::
  "32 word \<Rightarrow> 64 word \<Rightarrow> byte list \<Rightarrow> 32 word \<Rightarrow> 8 word \<Rightarrow> rr_state \<Rightarrow> rr_error + rr_state" where
  "rr_record_handle_packet_call call_site buf_addr buf sz direction s =
     rr_bind
       (set_current_item call_site
          (Call_args (RR_CALL_HANDLE_PACKET buf_addr buf sz direction)) s)
       rr_write_item"


text \<open>
  What the functions below take from rr_log.h, which is not among the sources: the
  comparison of program points (it may itself fail an assertion) and the numbers of two
  call sites. The functions are stated for every such header.
\<close>

record rr_log_h =
  rr_prog_point_compare ::
    "RR_prog_point \<Rightarrow> RR_prog_point \<Rightarrow> RR_log_entry_kind \<Rightarrow> rr_error + int"
  RR_CALLSITE_MAIN_LOOP_WAIT :: "32 word"
  RR_CALLSITE_LAST :: "32 word"

text \<open>
  Modelled from the spec: a comparison of program points to evaluate the functions with,
  as sections 4.3, 5 and 9 of the specification describe \<^verbatim>\<open>rr_prog_point_compare\<close> of
  rr_log.h: the instruction counts decide; at equal counts the other two fields must
  agree as well except for RR_INTERRUPT_REQUEST and RR_SKIPPED_CALL; a current point past
  the recorded one is a failed assertion. The numbers of the two call sites are not given
  by the specification; 13 and 99 stand for them.
\<close>

definition rr_prog_point_compare_model ::
  "RR_prog_point \<Rightarrow> RR_prog_point \<Rightarrow> RR_log_entry_kind \<Rightarrow> rr_error + int" where
  "rr_prog_point_compare_model current logged kind =
     (if guest_instr_count current < guest_instr_count logged then Inr (- 1)
      else if guest_instr_count current = guest_instr_count logged then
        (if kind = RR_INTERRUPT_REQUEST then Inr 0
         else if kind = RR_SKIPPED_CALL then Inr 0
         else if pc current = pc logged \<and> secondary current = secondary logged then Inr 0
         else Inr 1)
      else Inl Assert_prog_point)"

definition rr_log_h_model :: rr_log_h where
  "rr_log_h_model =
     \<lparr>rr_prog_point_compare = rr_prog_point_compare_model,
      RR_CALLSITE_MAIN_LOOP_WAIT = 13, RR_CALLSITE_LAST = 99\<rparr>"

definition rr_record_end_of_log :: "rr_log_h \<Rightarrow> rr_state \<Rightarrow> rr_error + rr_state" where
  "rr_record_end_of_log h s =
     rr_bind (set_current_item (RR_CALLSITE_LAST h) Last s) rr_write_item"

subsection \<open>Replay: the decoder\<close>

fun free_call_params :: "RR_skipped_call_args \<Rightarrow> RR_skipped_call_args" where
  "free_call_params (RR_CALL_CPU_MEM_RW a b l) = RR_CALL_CPU_MEM_RW a [] l"
| "free_call_params (RR_CALL_CPU_MEM_UNMAP a b l) = RR_CALL_CPU_MEM_UNMAP a [] l"
| "free_call_params (RR_CALL_HANDLE_PACKET p b sz d) = RR_CALL_HANDLE_PACKET p [] sz d"
| "free_call_params args = args"

text \<open>A freed buffer, its pointer set to NULL, is the empty list.\<close>

definition free_entry_params :: "RR_log_entry \<Rightarrow> RR_log_entry" where
  "free_entry_params entry =
     (case variant entry of
        Call_args args \<Rightarrow> entry\<lparr>variant := Call_args (free_call_params args)\<rparr>
      | _ \<Rightarrow> entry)"

definition RR_HIST_SIZE :: nat where
  "RR_HIST_SIZE = 10"

definition add_to_recycle_list :: "RR_log_entry \<Rightarrow> rr_state \<Rightarrow> rr_state" where
  "add_to_recycle_list entry s =
     s\<lparr>recycle_list := free_entry_params entry # recycle_list s,
       rr_log_entry_history :=
         (rr_log_entry_history s)[rr_hist_index s := free_entry_params entry],
       rr_hist_index := (rr_hist_index s + 1) mod RR_HIST_SIZE\<rparr>"

text \<open>
  \<^verbatim>\<open>alloc_new_entry\<close> takes the shell from the recycle list when there is one; the shell
  is zeroed and then overwritten, so only the list changes.
\<close>

definition alloc_new_entry :: "rr_state \<Rightarrow> rr_state" where
  "alloc_new_entry s = s\<lparr>recycle_list := tl (recycle_list s)\<rparr>"

text \<open>
  \<^verbatim>\<open>rr_fread(ptr, size, nmemb)\<close> returns the bytes read. \<^verbatim>\<open>fread\<close> returns \<open>nmemb\<close> when
  that many items of \<open>size\<close> bytes are left in the file, fewer otherwise, and 0 when
  \<open>size\<close> is 0.
\<close>

definition rr_fread :: "nat \<Rightarrow> nat \<Rightarrow> rr_state \<Rightarrow> rr_error + (byte list \<times> rr_state)" where
  "rr_fread sz nmemb s =
     (case rr_nondet_log s of
        None \<Rightarrow> Inl Null_pointer
      | Some l \<Rightarrow>
          (case fp l of
             None \<Rightarrow> Inl Null_pointer
           | Some pos \<Rightarrow>
               if (if sz = 0 then nmemb = 0 else pos + sz * nmemb \<le> length (log_file s)) then
                 Inr (take (sz * nmemb) (drop pos (log_file s)),
                      s\<lparr>rr_nondet_log :=
                          Some (l\<lparr>fp := Some (pos + sz * nmemb),
                                  bytes_read := bytes_read l + nmemb * sz\<rparr>)\<rparr>)
               else Inl Assert_fread))"

text \<open>The inner switch of \<^verbatim>\<open>rr_read_item\<close>, on the skipped-call kind just read.\<close>

definition read_call_args ::
  "32 word \<Rightarrow> rr_state \<Rightarrow> rr_error + (RR_skipped_call_args \<times> rr_state)" where
  "read_call_args k s =
     (if k = 0 then
        rr_bind (rr_fread 12 1 s) (\<lambda>(img, s1).
        rr_bind (rr_fread 1 (size_t_of_int (le_word (take 4 (drop 8 img)))) s1) (\<lambda>(buf, s2).
          Inr (RR_CALL_CPU_MEM_RW (le_word (take 8 img)) buf (le_word (take 4 (drop 8 img))),
               s2)))
      else if k = 1 then
        rr_bind (rr_fread 16 1 s) (\<lambda>(img, s1).
        rr_bind (rr_fread 1 (unat (le_word (take 8 (drop 8 img)) :: 64 word)) s1) (\<lambda>(buf, s2).
          Inr (RR_CALL_CPU_MEM_UNMAP (le_word (take 8 img)) buf (le_word (take 8 (drop 8 img))),
               s2)))
      else if k = 2 then
        rr_bind (rr_fread 25 1 s) (\<lambda>(img, s1).
        rr_bind (rr_fread 1 (unat (le_word (take 4 (drop 16 img)) :: 32 word)) s1) (\<lambda>(name, s2).
          Inr (RR_CALL_MEM_REGION_CHANGE (le_word (take 8 img)) (le_word (take 8 (drop 8 img)))
                 name (le_word (take 4 (drop 16 img))) (le_word (take 4 (drop 20 img)))
                 (take 1 (drop 24 img) \<noteq> [0]),
               s2)))
      else if k = 3 then
        rr_bind (rr_fread 24 1 s) (\<lambda>(img, s1).
          Inr (RR_CALL_HD_TRANSFER (le_word (take 4 img)) (le_word (take 8 (drop 4 img)))
                 (le_word (take 8 (drop 12 img))) (le_word (take 4 (drop 20 img))),
               s1))
      else if k = 4 then
        rr_bind (rr_fread 24 1 s) (\<lambda>(img, s1).
          Inr (RR_CALL_NET_TRANSFER (le_word (take 4 img)) (le_word (take 8 (drop 4 img)))
                 (le_word (take 8 (drop 12 img))) (le_word (take 4 (drop 20 img))),
               s1))
      else if k = 5 then
        rr_bind (rr_fread 13 1 s) (\<lambda>(img, s1).
        rr_bind (rr_fread (size_t_of_int (le_word (take 4 (drop 8 img)))) 1 s1) (\<lambda>(buf, s2).
          Inr (RR_CALL_HANDLE_PACKET (le_word (take 8 img)) buf
                 (le_word (take 4 (drop 8 img))) (le_word (take 1 (drop 12 img))),
               s2)))
      else Inl Assert_unimplemented_call)"

text \<open>The outer switch of \<^verbatim>\<open>rr_read_item\<close>, on the kind just read.\<close>

definition read_variant :: "32 word \<Rightarrow> rr_state \<Rightarrow> rr_error + (RR_variant \<times> rr_state)" where
  "read_variant k s =
     (if k = 0 then rr_bind (rr_fread 1 1 s) (\<lambda>(bs, s1). Inr (Input_1 (le_word bs), s1))
      else if k = 1 then rr_bind (rr_fread 2 1 s) (\<lambda>(bs, s1). Inr (Input_2 (le_word bs), s1))
      else if k = 2 then rr_bind (rr_fread 4 1 s) (\<lambda>(bs, s1). Inr (Input_4 (le_word bs), s1))
      else if k = 3 then rr_bind (rr_fread 8 1 s) (\<lambda>(bs, s1). Inr (Input_8 (le_word bs), s1))
      else if k = 4 then
        rr_bind (rr_fread 4 1 s) (\<lambda>(bs, s1). Inr (Interrupt_request (le_word bs), s1))
      else if k = 5 then
        rr_bind (rr_fread 4 1 s) (\<lambda>(bs, s1). Inr (Exit_request (le_word bs), s1))
      else if k = 6 then
        rr_bind (rr_fread 4 1 s) (\<lambda>(bs, s1).
        rr_bind (read_call_args (le_word bs) s1) (\<lambda>(args, s2). Inr (Call_args args, s2)))
      else if k = 8 then Inr (Last, s)
      else if k = 7 then Inr (Debug, s)
      else Inl Assert_unimplemented_entry)"

definition rr_read_item :: "rr_state \<Rightarrow> rr_error + (RR_log_entry \<times> rr_state)" where
  "rr_read_item s =
     (case rr_nondet_log s of
        None \<Rightarrow> Inl Null_pointer
      | Some l \<Rightarrow>
          if rr_in_replay s then
            if rr_log_is_empty l then Inl Assert_log_not_empty
            else if fp l = None then Inl Assert_fp_not_null
            else
              rr_bind (rr_fread 24 1 s) (\<lambda>(b_pp, s1).
              rr_bind (rr_fread 4 1 s1) (\<lambda>(b_kind, s2).
              rr_bind (rr_fread 4 1 s2) (\<lambda>(b_cs, s3).
              rr_bind (read_variant (le_word b_kind) s3) (\<lambda>(v, s4).
                Inr (\<lparr>prog_point = prog_point_of_bytes b_pp, callsite_loc = le_word b_cs,
                      file_pos = bytes_read l, variant = v\<rparr>,
                     alloc_new_entry (inc_item_number s4))))))
          else Inl Assert_in_replay)"

subsection \<open>Replay: the prefetch queue\<close>

definition RR_MAX_QUEUE_LEN :: nat where
  "RR_MAX_QUEUE_LEN = 65536"

text \<open>
  One round of the loop of \<^verbatim>\<open>rr_fill_queue\<close>, entered with \<^verbatim>\<open>num_entries\<close>: the test of
  the \<^verbatim>\<open>while\<close>, the read, the append, the count and the test of the \<^verbatim>\<open>break\<close>. It
  returns whether the loop goes on, the count and the state.
\<close>

definition rr_fill_round ::
  "rr_log_h \<Rightarrow> nat \<Rightarrow> rr_state \<Rightarrow> rr_error + (bool \<times> nat \<times> rr_state)" where
  "rr_fill_round h num_entries s =
     (case rr_nondet_log s of
        None \<Rightarrow> Inl Null_pointer
      | Some l \<Rightarrow>
          if rr_log_is_empty l then Inr (False, num_entries, s)
          else
            (case rr_read_item s of
               Inl e \<Rightarrow> Inl e
             | Inr (log_entry, s1) \<Rightarrow>
                 if (entry_kind log_entry = RR_SKIPPED_CALL
                       \<and> callsite_loc log_entry = RR_CALLSITE_MAIN_LOOP_WAIT h)
                    \<or> entry_kind log_entry = RR_INTERRUPT_REQUEST
                    \<or> num_entries + 1 > RR_MAX_QUEUE_LEN
                 then Inr (False, num_entries + 1,
                           s1\<lparr>rr_queue := rr_queue s1 @ [log_entry]\<rparr>)
                 else Inr (True, num_entries + 1,
                           s1\<lparr>rr_queue := rr_queue s1 @ [log_entry]\<rparr>)))"

lemma rr_fill_round_continues:
  "rr_fill_round h n s = Inr (True, n', s') \<Longrightarrow> n' = Suc n \<and> n < RR_MAX_QUEUE_LEN"
  by (auto simp: rr_fill_round_def split: option.splits if_splits sum.splits prod.splits)

text \<open>
  The loop. A round goes on only while the count is within the cap, which bounds the
  number of rounds.
\<close>

function rr_fill_loop :: "rr_log_h \<Rightarrow> nat \<Rightarrow> rr_state \<Rightarrow> rr_error + (nat \<times> rr_state)" where
  "rr_fill_loop h num_entries s =
     (case rr_fill_round h num_entries s of
        Inl e \<Rightarrow> Inl e
      | Inr (continue, n, s1) \<Rightarrow> if continue then rr_fill_loop h n s1 else Inr (n, s1))"
  by pat_completeness auto
termination
  by (relation "measure (\<lambda>(h, n, s). RR_MAX_QUEUE_LEN - n)")
     (auto dest!: rr_fill_round_continues)

definition rr_fill_queue :: "rr_log_h \<Rightarrow> rr_state \<Rightarrow> rr_error + rr_state" where
  "rr_fill_queue h s =
     (if rr_queue s = [] then
        rr_bind (rr_fill_loop h 0 s) (\<lambda>(num_entries, s1).
          Inr (if num_entries > rr_max_num_queue_entries s1
               then s1\<lparr>rr_max_num_queue_entries := num_entries\<rparr> else s1))
      else Inl Assert_queue_empty)"

text \<open>
  \<^verbatim>\<open>get_next_entry\<close>. The loop over leading RR_DEBUG entries unlinks them from the head
  and does nothing else with them; the head is then read without a test for NULL.
\<close>

definition get_next_entry ::
  "rr_log_h \<Rightarrow> RR_log_entry_kind \<Rightarrow> 32 word \<Rightarrow> bool \<Rightarrow> rr_state
     \<Rightarrow> rr_error + (RR_log_entry option \<times> rr_state)" where
  "get_next_entry h kind call_site check_callsite s =
     rr_bind (if rr_queue s = [] then rr_fill_queue h s else Inr s) (\<lambda>s1.
       if rr_queue s1 = [] then Inr (None, s1)
       else
         (let s2 = (if kind = RR_INTERRUPT_REQUEST then s1
                    else if kind = RR_SKIPPED_CALL then s1
                    else s1\<lparr>rr_queue :=
                           dropWhile (\<lambda>e. entry_kind e = RR_DEBUG) (rr_queue s1)\<rparr>)
          in case rr_queue s2 of
               [] \<Rightarrow> Inl Null_pointer
             | head # rest \<Rightarrow>
                 rr_bind
                   (if guest_instr_count (prog_point head) = 0 then Inr 0
                    else rr_prog_point_compare h (rr_prog_point s2) (prog_point head) kind)
                   (\<lambda>c.
                      if c = 0 then
                        if entry_kind head = kind then
                          if check_callsite \<and> callsite_loc head \<noteq> call_site
                          then Inr (None, s2)
                          else Inr (Some head, s2\<lparr>rr_queue := rest\<rparr>)
                        else Inr (None, s2)
                      else Inr (None, s2))))"


subsection \<open>Replay: the typed dispatchers\<close>

definition unlink_head :: "rr_state \<Rightarrow> rr_state" where
  "unlink_head s = s\<lparr>rr_queue := tl (rr_queue s)\<rparr>"

definition rr_replay_debug :: "32 word \<Rightarrow> rr_state \<Rightarrow> rr_state" where
  "rr_replay_debug call_site s =
     (case rr_queue s of
        [] \<Rightarrow> s
      | head # rest \<Rightarrow>
          if entry_kind head = RR_DEBUG then
            if guest_instr_count (rr_prog_point s) < guest_instr_count (prog_point head) then s
            else add_to_recycle_list head (unlink_head s)
          else s)"

text \<open>
  The members of the union that the dispatchers read. Each is read only from an entry
  of its own kind, which \<^verbatim>\<open>get_next_entry\<close> has checked.
\<close>

fun input_1 :: "RR_variant \<Rightarrow> 8 word" where
  "input_1 (Input_1 v) = v" | "input_1 other = 0"

fun input_2 :: "RR_variant \<Rightarrow> 16 word" where
  "input_2 (Input_2 v) = v" | "input_2 other = 0"

fun input_4 :: "RR_variant \<Rightarrow> 32 word" where
  "input_4 (Input_4 v) = v" | "input_4 other = 0"

fun input_8 :: "RR_variant \<Rightarrow> 64 word" where
  "input_8 (Input_8 v) = v" | "input_8 other = 0"

fun interrupt_request :: "RR_variant \<Rightarrow> 32 word" where
  "interrupt_request (Interrupt_request v) = v" | "interrupt_request other = 0"

fun exit_request :: "RR_variant \<Rightarrow> 32 word" where
  "exit_request (Exit_request v) = v" | "exit_request other = 0"

text \<open>The four \<^verbatim>\<open>rr_replay_input_N\<close> differ in the kind and in the member read.\<close>

definition rr_replay_input ::
  "RR_log_entry_kind \<Rightarrow> (RR_variant \<Rightarrow> 'a) \<Rightarrow> rr_log_h \<Rightarrow> 32 word \<Rightarrow> rr_state
     \<Rightarrow> rr_error + ('a \<times> rr_state)" where
  "rr_replay_input kind member h call_site s =
     rr_bind (get_next_entry h kind call_site False s) (\<lambda>(current_item, s1).
       case current_item of
         None \<Rightarrow> Inl Assert_replay_input
       | Some item \<Rightarrow>
           if callsite_loc item = call_site
           then Inr (member (variant item), add_to_recycle_list item s1)
           else Inl Assert_callsite)"

definition rr_replay_input_1 ::
  "rr_log_h \<Rightarrow> 32 word \<Rightarrow> rr_state \<Rightarrow> rr_error + (8 word \<times> rr_state)" where
  "rr_replay_input_1 = rr_replay_input RR_INPUT_1 input_1"

definition rr_replay_input_2 ::
  "rr_log_h \<Rightarrow> 32 word \<Rightarrow> rr_state \<Rightarrow> rr_error + (16 word \<times> rr_state)" where
  "rr_replay_input_2 = rr_replay_input RR_INPUT_2 input_2"

definition rr_replay_input_4 ::
  "rr_log_h \<Rightarrow> 32 word \<Rightarrow> rr_state \<Rightarrow> rr_error + (32 word \<times> rr_state)" where
  "rr_replay_input_4 = rr_replay_input RR_INPUT_4 input_4"

definition rr_replay_input_8 ::
  "rr_log_h \<Rightarrow> 32 word \<Rightarrow> rr_state \<Rightarrow> rr_error + (64 word \<times> rr_state)" where
  "rr_replay_input_8 = rr_replay_input RR_INPUT_8 input_8"

text \<open>The first component of the result is what the function stores through its pointer.\<close>

definition rr_replay_interrupt_request ::
  "rr_log_h \<Rightarrow> 32 word \<Rightarrow> rr_state \<Rightarrow> rr_error + (32 word \<times> rr_state)" where
  "rr_replay_interrupt_request h call_site s =
     rr_bind (get_next_entry h RR_INTERRUPT_REQUEST call_site True s) (\<lambda>(current_item, s1).
       case current_item of
         None \<Rightarrow> Inr (panda_current_interrupt_request s1, s1)
       | Some item \<Rightarrow>
           rr_bind
             (rr_fill_queue h
                (add_to_recycle_list item
                   (s1\<lparr>panda_current_interrupt_request := interrupt_request (variant item)\<rparr>)))
             (\<lambda>s2. Inr (panda_current_interrupt_request s2, s2)))"

definition rr_replay_exit_request ::
  "rr_log_h \<Rightarrow> 32 word \<Rightarrow> rr_state \<Rightarrow> rr_error + (32 word \<times> rr_state)" where
  "rr_replay_exit_request h call_site s =
     rr_bind (get_next_entry h RR_EXIT_REQUEST call_site False s) (\<lambda>(current_item, s1).
       case current_item of
         None \<Rightarrow> Inr (0, s1)
       | Some item \<Rightarrow>
           if callsite_loc item = call_site
           then Inr (exit_request (variant item), add_to_recycle_list item s1)
           else Inl Assert_callsite)"

subsection \<open>Log management and sessions\<close>

definition zero_prog_point :: RR_prog_point where
  "zero_prog_point = \<lparr>guest_instr_count = 0, pc = 0, secondary = 0\<rparr>"

text \<open>An entry of zero bytes: kind 0 with the value 0.\<close>

definition zero_entry :: RR_log_entry where
  "zero_entry =
     \<lparr>prog_point = zero_prog_point, callsite_loc = 0, file_pos = 0, variant = Input_1 0\<rparr>"

text \<open>
  \<^verbatim>\<open>rr_create_record_log\<close>: a zeroed log of type RECORD; \<^verbatim>\<open>fopen\<close> with mode "w" empties
  the file, and the header is written, all zero.
\<close>

definition rr_create_record_log :: "rr_state \<Rightarrow> rr_state" where
  "rr_create_record_log s =
     s\<lparr>rr_nondet_log :=
         Some \<lparr>log_type = RECORD, fp = Some 24, last_prog_point = zero_prog_point,
               bytes_read = 0, log_size = 0, item_number = 0, current_item = zero_entry\<rparr>,
       log_file := prog_point_bytes zero_prog_point\<rparr>"

text \<open>
  \<^verbatim>\<open>rr_create_replay_log\<close>: a zeroed log of type REPLAY on the file as it is, its size
  taken from the file; the header is read into \<^verbatim>\<open>last_prog_point\<close>.
\<close>

definition rr_create_replay_log :: "rr_state \<Rightarrow> rr_error + rr_state" where
  "rr_create_replay_log s =
     rr_bind
       (rr_fread 24 1
          (s\<lparr>rr_nondet_log :=
               Some \<lparr>log_type = REPLAY, fp = Some 0, last_prog_point = zero_prog_point,
                     bytes_read = 0, log_size = length (log_file s), item_number = 0,
                     current_item = zero_entry\<rparr>\<rparr>))
       (\<lambda>(bs, s1). Inr (set_last_prog_point (prog_point_of_bytes bs) s1))"

text \<open>
  \<^verbatim>\<open>rr_destroy_log\<close>: in a record log the stream is rewound and the header written over
  the first 24 bytes; the stream is closed and the log freed.
\<close>

definition rr_destroy_log :: "rr_state \<Rightarrow> rr_error + rr_state" where
  "rr_destroy_log s =
     (case rr_nondet_log s of
        None \<Rightarrow> Inl Null_pointer
      | Some l \<Rightarrow>
          Inr ((case fp l of
                  None \<Rightarrow> s
                | Some pos \<Rightarrow>
                    if log_type l = RECORD
                    then s\<lparr>log_file :=
                             prog_point_bytes (last_prog_point l) @ drop 24 (log_file s)\<rparr>
                    else s)
               \<lparr>rr_nondet_log := None\<rparr>))"

definition rr_reset_state :: "rr_state \<Rightarrow> rr_state" where
  "rr_reset_state s =
     s\<lparr>rr_record_in_progress := 0, rr_skipped_callsite_location := 0,
       rr_guest_instr_count := 0\<rparr>"

definition rr_do_begin_record :: "rr_state \<Rightarrow> rr_state" where
  "rr_do_begin_record s = (rr_reset_state (rr_create_record_log s))\<lparr>rr_mode := RR_RECORD\<rparr>"

definition rr_do_end_record :: "rr_log_h \<Rightarrow> rr_state \<Rightarrow> rr_error + rr_state" where
  "rr_do_end_record h s =
     rr_bind (rr_record_end_of_log h s) (\<lambda>s1.
     rr_bind (rr_destroy_log s1) (\<lambda>s2. Inr (s2\<lparr>rr_mode := RR_OFF\<rparr>)))"

definition rr_do_begin_replay :: "rr_log_h \<Rightarrow> rr_state \<Rightarrow> rr_error + rr_state" where
  "rr_do_begin_replay h s =
     rr_bind (rr_create_replay_log s) (\<lambda>s1.
       rr_fill_queue h ((rr_reset_state s1)\<lparr>rr_mode := RR_REPLAY\<rparr>))"

text \<open>
  \<^verbatim>\<open>rr_do_end_replay\<close> without an error: the statistics are reset, the recycle list
  and the queue are freed, the log is closed and the mode is off.
\<close>

definition rr_do_end_replay :: "rr_state \<Rightarrow> rr_error + rr_state" where
  "rr_do_end_replay s =
     rr_bind
       (rr_destroy_log (s\<lparr>rr_max_num_queue_entries := 0, recycle_list := [], rr_queue := []\<rparr>))
       (\<lambda>s1. Inr (s1\<lparr>rr_mode := RR_OFF\<rparr>))"

text \<open>
  \<^verbatim>\<open>rr_replay_finished\<close>: the conjunction is evaluated from the left, so the head of the
  queue is read only when the log is empty.
\<close>

definition rr_replay_finished :: "rr_state \<Rightarrow> rr_error + bool" where
  "rr_replay_finished s =
     (case rr_nondet_log s of
        None \<Rightarrow> Inl Null_pointer
      | Some l \<Rightarrow>
          if rr_log_is_empty l then
            (case rr_queue s of
               [] \<Rightarrow> Inl Null_pointer
             | head # rest \<Rightarrow>
                 Inr (entry_kind head = RR_LAST
                      \<and> guest_instr_count (prog_point head) \<le> rr_get_guest_instr_count s))
          else Inr False)"

text \<open>The globals when the process starts; the log file may hold any bytes.\<close>

definition rr_initial_state :: "byte list \<Rightarrow> rr_state" where
  "rr_initial_state file =
     \<lparr>rr_mode = RR_OFF, rr_nondet_log = None, log_file = file, rr_queue = [],
      recycle_list = [], rr_log_entry_history = replicate RR_HIST_SIZE zero_entry,
      rr_hist_index = 0, panda_current_interrupt_request = 0,
      rr_max_num_queue_entries = 0, rr_record_in_progress = 0,
      rr_skipped_callsite_location = 0, guest_effects = [],
      rr_guest_instr_count = 0, guest_pc = 0, guest_secondary = 0\<rparr>"

text \<open>The guest runs on to a program point: the clock that \<^verbatim>\<open>rr_prog_point()\<close> reads.\<close>

definition guest_at :: "RR_prog_point \<Rightarrow> rr_state \<Rightarrow> rr_state" where
  "guest_at pp s =
     s\<lparr>rr_guest_instr_count := guest_instr_count pp, guest_pc := pc pp,
       guest_secondary := secondary pp\<rparr>"

section \<open>The encoding, stated on its own\<close>

text \<open>
  The bytes that an entry takes in the log file, as the file format of the specification
  (section 6) gives them: the header fields, then the payload of the kind, then the tail.
  They are defined here apart from \<^verbatim>\<open>rr_write_item\<close> and \<^verbatim>\<open>rr_read_item\<close>, which are
  compared with them below.
\<close>


lemma rr_bind_simps [simp]:
  "rr_bind (Inl e) f = Inl e" "rr_bind (Inr x) f = f x"
  by (simp_all add: rr_bind_def)

lemma length_le_bytes [simp]: "length (le_bytes n w) = n"
  by (induction n arbitrary: w) auto

lemma le_bytes_numeral:
  "le_bytes (numeral k) w = ucast w # le_bytes (pred_numeral k) (drop_bit 8 w)"
  by (simp add: numeral_eq_Suc)

lemma le_word_le_bytes_take_bit:
  "(le_word (le_bytes n w) :: 'a::len word) = take_bit (8 * n) w"
proof (induction n arbitrary: w)
  case 0
  then show ?case by simp
next
  case (Suc n)
  show ?case
    apply (simp add: Suc)
    apply (rule bit_eqI)
    apply (auto simp add: bit_simps)
    done
qed

lemma le_word_le_bytes:
  "LENGTH('a) \<le> 8 * n \<Longrightarrow> (le_word (le_bytes n w) :: 'a::len word) = w"
  by (simp add: le_word_le_bytes_take_bit take_bit_word_eq_self)

definition append_log :: "byte list \<Rightarrow> rr_state \<Rightarrow> rr_state" where
  "append_log bs s =
     s\<lparr>log_file := log_file s @ bs,
       rr_nondet_log :=
         map_option (\<lambda>l. l\<lparr>fp := Some (length (log_file s) + length bs)\<rparr>) (rr_nondet_log s)\<rparr>"

definition at_end :: "rr_state \<Rightarrow> bool" where
  "at_end s = (case rr_nondet_log s of None \<Rightarrow> False | Some l \<Rightarrow> fp l = Some (length (log_file s)))"

lemma rr_fwrite_at_end:
  assumes "at_end s"
  shows "rr_fwrite bs sz nmemb s =
           (if length bs < sz * nmemb then Inl Bad_buffer
            else if sz = 0 \<and> 0 < nmemb then Inl Assert_fwrite
            else Inr (append_log (take (sz * nmemb) bs) s))"
  using assms
  by (auto simp: rr_fwrite_def at_end_def append_log_def split: option.splits)

lemma at_end_append_log [simp]: "at_end s \<Longrightarrow> at_end (append_log bs s)"
  by (auto simp: at_end_def append_log_def split: option.splits)

lemma append_log_append_log [simp]:
  "append_log b (append_log a s) = append_log (a @ b) s"
  by (cases "rr_nondet_log s") (auto simp: append_log_def)


fun args_tail :: "RR_skipped_call_args \<Rightarrow> byte list" where
  "args_tail (RR_CALL_CPU_MEM_RW a b l) = take (size_t_of_int l) b"
| "args_tail (RR_CALL_CPU_MEM_UNMAP a b l) = take (unat l) b"
| "args_tail (RR_CALL_MEM_REGION_CHANGE a sz n l m ad) = take (unat l) n"
| "args_tail (RR_CALL_HD_TRANSFER t sa da n) = []"
| "args_tail (RR_CALL_NET_TRANSFER t sa da n) = []"
| "args_tail (RR_CALL_HANDLE_PACKET p b sz d) = take (size_t_of_int sz) b"

fun args_writable :: "RR_skipped_call_args \<Rightarrow> bool" where
  "args_writable (RR_CALL_CPU_MEM_RW a b l) = (size_t_of_int l \<le> length b)"
| "args_writable (RR_CALL_CPU_MEM_UNMAP a b l) = (unat l \<le> length b)"
| "args_writable (RR_CALL_MEM_REGION_CHANGE a sz n l m ad) = (unat l \<le> length n)"
| "args_writable (RR_CALL_HD_TRANSFER t sa da n) = True"
| "args_writable (RR_CALL_NET_TRANSFER t sa da n) = True"
| "args_writable (RR_CALL_HANDLE_PACKET p b sz d) =
     (0 < size_t_of_int sz \<and> size_t_of_int sz \<le> length b)"

fun variant_bytes :: "RR_variant \<Rightarrow> byte list" where
  "variant_bytes (Input_1 v) = le_bytes 1 v"
| "variant_bytes (Input_2 v) = le_bytes 2 v"
| "variant_bytes (Input_4 v) = le_bytes 4 v"
| "variant_bytes (Input_8 v) = le_bytes 8 v"
| "variant_bytes (Interrupt_request v) = le_bytes 4 v"
| "variant_bytes (Exit_request v) = le_bytes 4 v"
| "variant_bytes (Call_args args) =
     le_bytes 4 (call_kind_code args) @ args_bytes args @ args_tail args"
| "variant_bytes Debug = []"
| "variant_bytes Last = []"

fun variant_writable :: "RR_variant \<Rightarrow> bool" where
  "variant_writable (Call_args args) = args_writable args"
| "variant_writable v = True"

definition item_bytes :: "RR_log_entry \<Rightarrow> byte list" where
  "item_bytes e =
     prog_point_bytes (prog_point e) @ le_bytes 4 (kind_code (entry_kind e))
       @ le_bytes 4 (callsite_loc e) @ variant_bytes (variant e)"

lemma length_args_bytes [simp]: "length (args_bytes a) = args_sizeof a"
  by (cases a) (simp_all)

lemma length_prog_point_bytes [simp]: "length (prog_point_bytes pp) = 24"
  by (simp add: prog_point_bytes_def)

lemma write_call_args_at_end:
  assumes "at_end s"
  shows "write_call_args a s =
           (if args_writable a then Inr (append_log (args_bytes a @ args_tail a) s)
            else Inl (if (\<exists>p b sz d. a = RR_CALL_HANDLE_PACKET p b sz d \<and> size_t_of_int sz \<le> length b)
                      then Assert_fwrite else Bad_buffer))"
  using assms
  by (cases a) (auto simp: rr_fwrite_at_end simp del: args_bytes.simps)

lemma append_log_Nil [simp]: "at_end s \<Longrightarrow> append_log [] s = s"
  by (cases "rr_nondet_log s") (auto simp: at_end_def append_log_def)

lemma write_variant_at_end:
  assumes "at_end s"
  shows "write_variant v s =
           (if variant_writable v then Inr (append_log (variant_bytes v) s)
            else Inl (if (\<exists>p b sz d. v = Call_args (RR_CALL_HANDLE_PACKET p b sz d)
                             \<and> size_t_of_int sz \<le> length b)
                      then Assert_fwrite else Bad_buffer))"
  using assms
  by (cases v)
     (auto simp: rr_fwrite_at_end write_call_args_at_end
           simp del: args_bytes.simps)

lemma at_end_set_last_prog_point [simp]: "at_end (set_last_prog_point pp s) = at_end s"
  by (auto simp: at_end_def set_last_prog_point_def split: option.splits)

definition wrote :: "RR_log_entry \<Rightarrow> rr_state \<Rightarrow> rr_state" where
  "wrote item s =
     s\<lparr>log_file := log_file s @ item_bytes item,
       rr_nondet_log :=
         map_option
           (\<lambda>l. l\<lparr>fp := Some (length (log_file s) + length (item_bytes item)),
                  last_prog_point := prog_point item,
                  item_number := item_number l + 1\<rparr>)
           (rr_nondet_log s)\<rparr>"

lemma rr_write_item_at_end:
  assumes "at_end s" "rr_in_record s" "rr_nondet_log s = Some l"
  shows "rr_write_item s =
           (if variant_writable (variant (current_item l)) then Inr (wrote (current_item l) s)
            else Inl (if (\<exists>p b sz d. variant (current_item l) = Call_args (RR_CALL_HANDLE_PACKET p b sz d)
                             \<and> size_t_of_int sz \<le> length b)
                      then Assert_fwrite else Bad_buffer))"
proof -
  let ?item = "current_item l"
  let ?hd = "prog_point_bytes (prog_point ?item) @ le_bytes 4 (kind_code (entry_kind ?item))
               @ le_bytes 4 (callsite_loc ?item)"
  have w: "rr_write_item s =
             rr_bind (write_variant (variant ?item)
                        (set_last_prog_point (prog_point ?item) (append_log ?hd s)))
               (\<lambda>s4. Inr (inc_item_number s4))"
    using assms
    by (simp add: rr_write_item_def Let_def rr_fwrite_at_end)
  have e: "inc_item_number
             (append_log (variant_bytes (variant ?item))
                (set_last_prog_point (prog_point ?item) (append_log ?hd s)))
           = wrote ?item s"
    using assms(3)
    by (simp add: wrote_def item_bytes_def append_log_def set_last_prog_point_def
          inc_item_number_def)
  show ?thesis
    using assms(1) e by (simp add: w write_variant_at_end)
qed


fun cut_args :: "RR_skipped_call_args \<Rightarrow> RR_skipped_call_args" where
  "cut_args (RR_CALL_CPU_MEM_RW a b l) = RR_CALL_CPU_MEM_RW a (take (size_t_of_int l) b) l"
| "cut_args (RR_CALL_CPU_MEM_UNMAP a b l) = RR_CALL_CPU_MEM_UNMAP a (take (unat l) b) l"
| "cut_args (RR_CALL_MEM_REGION_CHANGE a sz n l m ad) =
     RR_CALL_MEM_REGION_CHANGE a sz (take (unat l) n) l m ad"
| "cut_args (RR_CALL_HANDLE_PACKET p b sz d) =
     RR_CALL_HANDLE_PACKET p (take (size_t_of_int sz) b) sz d"
| "cut_args args = args"

fun cut_variant :: "RR_variant \<Rightarrow> RR_variant" where
  "cut_variant (Call_args args) = Call_args (cut_args args)"
| "cut_variant v = v"

definition advance :: "nat \<Rightarrow> rr_state \<Rightarrow> rr_state" where
  "advance n s =
     s\<lparr>rr_nondet_log :=
         map_option (\<lambda>l. l\<lparr>fp := map_option (\<lambda>p. p + n) (fp l),
                             bytes_read := bytes_read l + n\<rparr>) (rr_nondet_log s)\<rparr>"

definition ahead :: "rr_state \<Rightarrow> byte list \<Rightarrow> bool" where
  "ahead s bs =
     (case rr_nondet_log s of
        None \<Rightarrow> False
      | Some l \<Rightarrow>
          (case fp l of
             None \<Rightarrow> False
           | Some pos \<Rightarrow> pos \<le> length (log_file s) \<and> drop pos (log_file s) = bs))"

lemma rr_fread_ahead:
  assumes "ahead s (bs @ rest)" "length bs = sz * nmemb" "sz = 0 \<Longrightarrow> nmemb = 0"
  shows "rr_fread sz nmemb s = Inr (bs, advance (length bs) s)"
proof -
  obtain l pos where l: "rr_nondet_log s = Some l" "fp l = Some pos"
    "pos \<le> length (log_file s)" "drop pos (log_file s) = bs @ rest"
    using assms(1) by (auto simp: ahead_def split: option.splits)
  have "length (drop pos (log_file s)) = length bs + length rest"
    using l(4) by simp
  then have le: "pos + sz * nmemb \<le> length (log_file s)"
    using l(3) assms(2) by simp
  have "take (sz * nmemb) (drop pos (log_file s)) = bs"
    using l(4) assms(2) by simp
  then show ?thesis
    using l le assms(2,3)
    by (auto simp: rr_fread_def advance_def mult.commute)
qed

lemma ahead_advance:
  assumes "ahead s (bs @ rest)"
  shows "ahead (advance (length bs) s) rest"
proof -
  obtain l pos where l: "rr_nondet_log s = Some l" "fp l = Some pos"
    "pos \<le> length (log_file s)" "drop pos (log_file s) = bs @ rest"
    using assms(1) by (auto simp: ahead_def split: option.splits)
  have "length (drop pos (log_file s)) = length bs + length rest"
    using l(4) by simp
  then have le: "pos + length bs \<le> length (log_file s)"
    using l(3) by simp
  have "drop (pos + length bs) (log_file s) = drop (length bs) (drop pos (log_file s))"
    by (simp add: add.commute)
  then have "drop (pos + length bs) (log_file s) = rest"
    using l(4) by simp
  then show ?thesis
    using l le by (simp add: ahead_def advance_def)
qed

lemma advance_advance [simp]: "advance b (advance a s) = advance (a + b) s"
  by (cases "rr_nondet_log s"; cases "fp (the (rr_nondet_log s))")
     (auto simp: advance_def)

lemma le_word_le_bytes_8 [simp]:
  "le_word (le_bytes 8 (w :: 64 word)) = w"
  "le_word (le_bytes 4 (v :: 32 word)) = v"
  "le_word (le_bytes 2 (u :: 16 word)) = u"
  "le_word (le_bytes 1 (t :: 8 word)) = t"
  by (simp_all add: le_word_le_bytes)

lemma read_scalar:
  assumes "ahead s (le_bytes n w @ rest)" "0 < n"
  shows "rr_fread n 1 s = Inr (le_bytes n w, advance n s)"
  using rr_fread_ahead [OF assms(1), of n 1] assms(2) by simp

lemma read_call_args_ahead:
  assumes "ahead s (args_bytes a @ args_tail a @ rest)" "args_writable a"
  shows "read_call_args (call_kind_code a) s =
           Inr (cut_args a, advance (length (args_bytes a @ args_tail a)) s)"
proof (cases a)
  case (RR_CALL_CPU_MEM_RW ad b l)
  let ?img = "args_bytes a"
  have 1: "rr_fread 12 1 s = Inr (?img, advance 12 s)"
    using rr_fread_ahead [of s ?img "args_tail a @ rest" 12 1] assms(1)
    by (simp add: RR_CALL_CPU_MEM_RW)
  have 2: "ahead (advance 12 s) (args_tail a @ rest)"
    using ahead_advance [of s ?img "args_tail a @ rest"] assms(1)
    by (simp add: RR_CALL_CPU_MEM_RW)
  have 3: "rr_fread 1 (size_t_of_int l) (advance 12 s)
             = Inr (args_tail a, advance (length (args_tail a)) (advance 12 s))"
    using rr_fread_ahead [OF 2, of 1 "size_t_of_int l"] assms(2)
    by (simp add: RR_CALL_CPU_MEM_RW)
  show ?thesis
    using 1 3 assms(2)
    by (simp add: read_call_args_def RR_CALL_CPU_MEM_RW)
next
  case (RR_CALL_CPU_MEM_UNMAP ad b l)
  let ?img = "args_bytes a"
  have 1: "rr_fread 16 1 s = Inr (?img, advance 16 s)"
    using rr_fread_ahead [of s ?img "args_tail a @ rest" 16 1] assms(1)
    by (simp add: RR_CALL_CPU_MEM_UNMAP)
  have 2: "ahead (advance 16 s) (args_tail a @ rest)"
    using ahead_advance [of s ?img "args_tail a @ rest"] assms(1)
    by (simp add: RR_CALL_CPU_MEM_UNMAP)
  have 3: "rr_fread 1 (unat l) (advance 16 s)
             = Inr (args_tail a, advance (length (args_tail a)) (advance 16 s))"
    using rr_fread_ahead [OF 2, of 1 "unat l"] assms(2)
    by (simp add: RR_CALL_CPU_MEM_UNMAP)
  show ?thesis
    using 1 3 assms(2)
    by (simp add: read_call_args_def RR_CALL_CPU_MEM_UNMAP)
next
  case (RR_CALL_MEM_REGION_CHANGE ad sz n l m added)
  let ?img = "args_bytes a"
  have 1: "rr_fread 25 1 s = Inr (?img, advance 25 s)"
    using rr_fread_ahead [of s ?img "args_tail a @ rest" 25 1] assms(1)
    by (simp add: RR_CALL_MEM_REGION_CHANGE)
  have 2: "ahead (advance 25 s) (args_tail a @ rest)"
    using ahead_advance [of s ?img "args_tail a @ rest"] assms(1)
    by (simp add: RR_CALL_MEM_REGION_CHANGE)
  have 3: "rr_fread 1 (unat l) (advance 25 s)
             = Inr (args_tail a, advance (length (args_tail a)) (advance 25 s))"
    using rr_fread_ahead [OF 2, of 1 "unat l"] assms(2)
    by (simp add: RR_CALL_MEM_REGION_CHANGE)
  show ?thesis
    using 1 3 assms(2)
    by (simp add: read_call_args_def RR_CALL_MEM_REGION_CHANGE bool_byte_def)
next
  case (RR_CALL_HD_TRANSFER t sa da n)
  let ?img = "args_bytes a"
  have 1: "rr_fread 24 1 s = Inr (?img, advance 24 s)"
    using rr_fread_ahead [of s ?img "args_tail a @ rest" 24 1] assms(1)
    by (simp add: RR_CALL_HD_TRANSFER)
  show ?thesis
    using 1 by (simp add: read_call_args_def RR_CALL_HD_TRANSFER)
next
  case (RR_CALL_NET_TRANSFER t sa da n)
  let ?img = "args_bytes a"
  have 1: "rr_fread 24 1 s = Inr (?img, advance 24 s)"
    using rr_fread_ahead [of s ?img "args_tail a @ rest" 24 1] assms(1)
    by (simp add: RR_CALL_NET_TRANSFER)
  show ?thesis
    using 1 by (simp add: read_call_args_def RR_CALL_NET_TRANSFER)
next
  case (RR_CALL_HANDLE_PACKET p b sz d)
  let ?img = "args_bytes a"
  have 1: "rr_fread 13 1 s = Inr (?img, advance 13 s)"
    using rr_fread_ahead [of s ?img "args_tail a @ rest" 13 1] assms(1)
    by (simp add: RR_CALL_HANDLE_PACKET)
  have 2: "ahead (advance 13 s) (args_tail a @ rest)"
    using ahead_advance [of s ?img "args_tail a @ rest"] assms(1)
    by (simp add: RR_CALL_HANDLE_PACKET)
  have 3: "rr_fread (size_t_of_int sz) 1 (advance 13 s)
             = Inr (args_tail a, advance (length (args_tail a)) (advance 13 s))"
    using rr_fread_ahead [OF 2, of "size_t_of_int sz" 1] assms(2)
    by (simp add: RR_CALL_HANDLE_PACKET)
  show ?thesis
    using 1 3 assms(2)
    by (simp add: read_call_args_def RR_CALL_HANDLE_PACKET)
qed


lemma advance_0 [simp]: "advance 0 s = s"
  by (cases "rr_nondet_log s"; cases "fp (the (rr_nondet_log s))") (auto simp: advance_def)

lemma read_variant_ahead:
  assumes "ahead s (variant_bytes v @ rest)" "variant_writable v"
  shows "read_variant (kind_code (kind_of v)) s =
           Inr (cut_variant v, advance (length (variant_bytes v)) s)"
proof (cases v)
  case (Call_args a)
  have 0: "ahead s (le_bytes 4 (call_kind_code a) @ args_bytes a @ args_tail a @ rest)"
    using assms(1) by (simp add: Call_args)
  have 1: "rr_fread 4 1 s = Inr (le_bytes 4 (call_kind_code a), advance 4 s)"
    using read_scalar [OF 0] by simp
  have 2: "ahead (advance 4 s) (args_bytes a @ args_tail a @ rest)"
    using ahead_advance [OF 0] by simp
  show ?thesis
    using 1 read_call_args_ahead [OF 2] assms(2)
    by (simp add: read_variant_def Call_args)
next
  case (Input_1 x)
  have 0: "ahead s (le_bytes 1 x @ rest)" using assms(1) by (simp add: Input_1)
  show ?thesis using read_scalar [OF 0] by (simp add: read_variant_def Input_1)
next
  case (Input_2 x)
  have 0: "ahead s (le_bytes 2 x @ rest)" using assms(1) by (simp add: Input_2)
  show ?thesis using read_scalar [OF 0] by (simp add: read_variant_def Input_2)
next
  case (Input_4 x)
  have 0: "ahead s (le_bytes 4 x @ rest)" using assms(1) by (simp add: Input_4)
  show ?thesis using read_scalar [OF 0] by (simp add: read_variant_def Input_4)
next
  case (Input_8 x)
  have 0: "ahead s (le_bytes 8 x @ rest)" using assms(1) by (simp add: Input_8)
  show ?thesis using read_scalar [OF 0] by (simp add: read_variant_def Input_8)
next
  case (Interrupt_request x)
  have 0: "ahead s (le_bytes 4 x @ rest)" using assms(1) by (simp add: Interrupt_request)
  show ?thesis using read_scalar [OF 0] by (simp add: read_variant_def Interrupt_request)
next
  case (Exit_request x)
  have 0: "ahead s (le_bytes 4 x @ rest)" using assms(1) by (simp add: Exit_request)
  show ?thesis using read_scalar [OF 0] by (simp add: read_variant_def Exit_request)
next
  case Debug
  then show ?thesis by (simp add: read_variant_def)
next
  case Last
  then show ?thesis by (simp add: read_variant_def)
qed

definition decoded :: "nat \<Rightarrow> RR_log_entry \<Rightarrow> RR_log_entry" where
  "decoded pos e = e\<lparr>file_pos := pos, variant := cut_variant (variant e)\<rparr>"

lemma ahead_inc [simp]: "ahead (inc_item_number s) bs = ahead s bs"
  by (auto simp: ahead_def inc_item_number_def split: option.splits)

lemma ahead_alloc [simp]: "ahead (alloc_new_entry s) bs = ahead s bs"
  by (auto simp: ahead_def alloc_new_entry_def split: option.splits)

lemma prog_point_of_bytes_bytes [simp]: "prog_point_of_bytes (prog_point_bytes pp) = pp"
  by (simp add: prog_point_of_bytes_def prog_point_bytes_def)

lemma rr_read_item_ahead:
  assumes "ahead s (item_bytes e @ rest)" "rr_in_replay s" "rr_nondet_log s = Some l"
    "\<not> rr_log_is_empty l" "variant_writable (variant e)"
  shows "rr_read_item s =
           Inr (decoded (bytes_read l) e,
                alloc_new_entry (inc_item_number (advance (length (item_bytes e)) s)))"
proof -
  let ?pp = "prog_point_bytes (prog_point e)"
  let ?k = "le_bytes 4 (kind_code (entry_kind e))"
  let ?c = "le_bytes 4 (callsite_loc e)"
  let ?v = "variant_bytes (variant e)"
  have fp: "fp l \<noteq> None"
    using assms(1,3) by (auto simp: ahead_def split: option.splits)
  have 0: "ahead s (?pp @ ?k @ ?c @ ?v @ rest)"
    using assms(1) by (simp add: item_bytes_def)
  have r1: "rr_fread 24 1 s = Inr (?pp, advance 24 s)"
    using rr_fread_ahead [OF 0, of 24 1] by simp
  have 1: "ahead (advance 24 s) (?k @ ?c @ ?v @ rest)"
    using ahead_advance [OF 0] by simp
  have r2: "rr_fread 4 1 (advance 24 s) = Inr (?k, advance 28 s)"
    using read_scalar [OF 1] by simp
  have 2: "ahead (advance 28 s) (?c @ ?v @ rest)"
    using ahead_advance [OF 1] by simp
  have r3: "rr_fread 4 1 (advance 28 s) = Inr (?c, advance 32 s)"
    using read_scalar [OF 2] by simp
  have 3: "ahead (advance 32 s) (?v @ rest)"
    using ahead_advance [OF 2] by simp
  have r4: "read_variant (kind_code (entry_kind e)) (advance 32 s) =
              Inr (cut_variant (variant e), advance (32 + length ?v) s)"
    using read_variant_ahead [OF 3 assms(5)] by (simp add: entry_kind_def)
  have len: "length (item_bytes e) = 32 + length ?v"
    by (simp add: item_bytes_def)
  have d: "\<lparr>prog_point = prog_point e, callsite_loc = callsite_loc e,
             file_pos = bytes_read l, variant = cut_variant (variant e)\<rparr>
           = decoded (bytes_read l) e"
    by (simp add: decoded_def)
  show ?thesis
    using assms(2,3,4) fp r1 r2 r3 r4 d
    by (simp add: rr_read_item_def len)
qed

section \<open>Record sessions\<close>

text \<open>
  A state is recording when the mode is RR_RECORD and the record log is open with its
  stream at the end of the file, behind the header: the states between
  \<^verbatim>\<open>rr_do_begin_record\<close> and \<^verbatim>\<open>rr_do_end_record\<close>.
\<close>


definition recording :: "rr_state \<Rightarrow> bool" where
  "recording s =
     (rr_in_record s \<and> at_end s \<and> map_option log_type (rr_nondet_log s) = Some RECORD
      \<and> 24 \<le> length (log_file s))"

definition new_item :: "32 word \<Rightarrow> RR_variant \<Rightarrow> rr_state \<Rightarrow> RR_log_entry" where
  "new_item call_site v s =
     \<lparr>prog_point = rr_prog_point s, callsite_loc = call_site, file_pos = 0, variant = v\<rparr>"

definition recorded :: "RR_log_entry \<Rightarrow> rr_state \<Rightarrow> rr_state" where
  "recorded item s =
     s\<lparr>log_file := log_file s @ item_bytes item,
       rr_nondet_log :=
         map_option
           (\<lambda>l. l\<lparr>fp := Some (length (log_file s) + length (item_bytes item)),
                  last_prog_point := prog_point item,
                  item_number := item_number l + 1,
                  current_item := item\<rparr>)
           (rr_nondet_log s)\<rparr>"

definition write_error :: "RR_variant \<Rightarrow> rr_error" where
  "write_error v =
     (if (\<exists>p b sz d. v = Call_args (RR_CALL_HANDLE_PACKET p b sz d)
              \<and> size_t_of_int sz \<le> length b)
      then Assert_fwrite else Bad_buffer)"

lemma record_item:
  assumes "recording s"
  shows "rr_bind (set_current_item call_site v s) rr_write_item =
           (if variant_writable v then Inr (recorded (new_item call_site v s) s)
            else Inl (write_error v))"
proof -
  obtain l where l: "rr_nondet_log s = Some l" "fp l = Some (length (log_file s))"
    using assms by (auto simp: recording_def at_end_def split: option.splits)
  let ?s1 = "s\<lparr>rr_nondet_log := Some (l\<lparr>current_item := new_item call_site v s\<rparr>)\<rparr>"
  have 1: "set_current_item call_site v s = Inr ?s1"
    using l by (simp add: set_current_item_def new_item_def)
  have 2: "at_end ?s1" "rr_in_record ?s1"
    using assms l by (simp_all add: recording_def at_end_def rr_in_record_def)
  have 3: "wrote (new_item call_site v s) ?s1 = recorded (new_item call_site v s) s"
    using l by (simp add: wrote_def recorded_def)
  show ?thesis
    using rr_write_item_at_end [OF 2, of "l\<lparr>current_item := new_item call_site v s\<rparr>"] 3
    by (simp add: 1 new_item_def write_error_def)
qed

lemma recording_recorded [simp]: "recording s \<Longrightarrow> recording (recorded item s)"
  by (auto simp: recording_def recorded_def at_end_def rr_in_record_def split: option.splits)

lemma recorded_fields [simp]:
  "log_file (recorded item s) = log_file s @ item_bytes item"
  "panda_current_interrupt_request (recorded item s) = panda_current_interrupt_request s"
  "rr_mode (recorded item s) = rr_mode s"
  "rr_queue (recorded item s) = rr_queue s"
  by (simp_all add: recorded_def)

lemma recording_begin [simp]: "recording (rr_do_begin_record s)"
  by (simp add: recording_def rr_do_begin_record_def rr_reset_state_def
        rr_create_record_log_def at_end_def rr_in_record_def)

lemma recording_guest_at [simp]: "recording (guest_at pp s) = recording s"
  by (auto simp: recording_def guest_at_def at_end_def rr_in_record_def split: option.splits)

lemma recording_cache [simp]:
  "recording (s\<lparr>panda_current_interrupt_request := v\<rparr>) = recording s"
  by (auto simp: recording_def at_end_def rr_in_record_def split: option.splits)

lemma rr_record_interrupt_request_recording:
  assumes "recording s"
  shows "rr_record_interrupt_request call_site v s =
           Inr (if panda_current_interrupt_request s = v then s
                else recorded (new_item call_site (Interrupt_request v) s)
                       (s\<lparr>panda_current_interrupt_request := v\<rparr>))"
proof -
  obtain l where l: "rr_nondet_log s = Some l"
    using assms by (auto simp: recording_def at_end_def split: option.splits)
  let ?c = "s\<lparr>panda_current_interrupt_request := v\<rparr>"
  have "rr_bind (set_current_item call_site (Interrupt_request v) s)
          (\<lambda>s1. rr_write_item (s1\<lparr>panda_current_interrupt_request := v\<rparr>))
        = rr_bind (set_current_item call_site (Interrupt_request v) ?c) rr_write_item"
    using l by (cases s) (simp add: set_current_item_def rr_prog_point_def)
  also have "\<dots> = Inr (recorded (new_item call_site (Interrupt_request v) ?c) ?c)"
    using record_item [of ?c call_site "Interrupt_request v"] assms by simp
  finally show ?thesis
    by (simp add: rr_record_interrupt_request_def new_item_def rr_prog_point_def)
qed

lemma rr_record_exit_request_recording:
  assumes "recording s"
  shows "rr_record_exit_request call_site v s =
           Inr (if v = 0 then s else recorded (new_item call_site (Exit_request v) s) s)"
  using record_item [OF assms, of call_site "Exit_request v"]
  by (simp add: rr_record_exit_request_def)

definition closed :: "rr_log_h \<Rightarrow> rr_state \<Rightarrow> rr_state" where
  "closed h s =
     s\<lparr>log_file :=
         prog_point_bytes (rr_prog_point s)
           @ drop 24 (log_file s @ item_bytes (new_item (RR_CALLSITE_LAST h) Last s)),
       rr_nondet_log := None, rr_mode := RR_OFF\<rparr>"

lemma rr_do_end_record_recording:
  assumes "recording s"
  shows "rr_do_end_record h s = Inr (closed h s)"
proof -
  obtain l where l: "rr_nondet_log s = Some l" "fp l = Some (length (log_file s))"
    "log_type l = RECORD"
    using assms by (auto simp: recording_def at_end_def split: option.splits)
  have 1: "rr_record_end_of_log h s = Inr (recorded (new_item (RR_CALLSITE_LAST h) Last s) s)"
    using record_item [OF assms, of "RR_CALLSITE_LAST h" Last]
    by (simp add: rr_record_end_of_log_def)
  show ?thesis
    using l
    by (simp add: rr_do_end_record_def 1 rr_destroy_log_def recorded_def closed_def
          new_item_def)
qed


datatype rr_record_call =
    Record_debug "32 word"
  | Record_input_1 "32 word" "8 word"
  | Record_input_2 "32 word" "16 word"
  | Record_input_4 "32 word" "32 word"
  | Record_input_8 "32 word" "64 word"
  | Record_interrupt_request "32 word" "32 word"
  | Record_exit_request "32 word" "32 word"
  | Record_cpu_mem_rw_call "32 word" "64 word" "byte list" "32 word"
  | Record_cpu_mem_unmap "32 word" "64 word" "byte list" "64 word"
  | Record_memory_region_change "32 word" "64 word" "64 word" "byte list" "32 word" bool
  | Record_hd_transfer "32 word" "32 word" "64 word" "64 word" "32 word"
  | Record_net_transfer "32 word" "32 word" "64 word" "64 word" "32 word"
  | Record_handle_packet_call "32 word" "64 word" "byte list" "32 word" "8 word"

fun do_record_call :: "rr_record_call \<Rightarrow> rr_state \<Rightarrow> rr_error + rr_state" where
  "do_record_call (Record_debug cs) = rr_record_debug cs"
| "do_record_call (Record_input_1 cs v) = rr_record_input_1 cs v"
| "do_record_call (Record_input_2 cs v) = rr_record_input_2 cs v"
| "do_record_call (Record_input_4 cs v) = rr_record_input_4 cs v"
| "do_record_call (Record_input_8 cs v) = rr_record_input_8 cs v"
| "do_record_call (Record_interrupt_request cs v) = rr_record_interrupt_request cs v"
| "do_record_call (Record_exit_request cs v) = rr_record_exit_request cs v"
| "do_record_call (Record_cpu_mem_rw_call cs a b l) = rr_record_cpu_mem_rw_call cs a b l"
| "do_record_call (Record_cpu_mem_unmap cs a b l) = rr_record_cpu_mem_unmap cs a b l"
| "do_record_call (Record_memory_region_change cs a sz n m ad) =
     rr_record_memory_region_change cs a sz n m ad"
| "do_record_call (Record_hd_transfer cs t sa da n) = rr_record_hd_transfer cs t sa da n"
| "do_record_call (Record_net_transfer cs t sa da n) = rr_record_net_transfer cs t sa da n"
| "do_record_call (Record_handle_packet_call cs p b sz d) =
     rr_record_handle_packet_call cs p b sz d"

fun rr_record_calls ::
  "(RR_prog_point \<times> rr_record_call) list \<Rightarrow> rr_state \<Rightarrow> rr_error + rr_state" where
  "rr_record_calls [] s = Inr s"
| "rr_record_calls ((pp, call) # calls) s =
     rr_bind (do_record_call call (guest_at pp s)) (rr_record_calls calls)"

definition entry_at :: "RR_prog_point \<Rightarrow> 32 word \<Rightarrow> RR_variant \<Rightarrow> RR_log_entry" where
  "entry_at pp call_site v =
     \<lparr>prog_point = pp, callsite_loc = call_site, file_pos = 0, variant = v\<rparr>"

fun call_entries :: "RR_prog_point \<Rightarrow> rr_record_call \<Rightarrow> 32 word \<Rightarrow> RR_log_entry list" where
  "call_entries pp (Record_debug cs) c = [entry_at pp cs Debug]"
| "call_entries pp (Record_input_1 cs v) c = [entry_at pp cs (Input_1 v)]"
| "call_entries pp (Record_input_2 cs v) c = [entry_at pp cs (Input_2 v)]"
| "call_entries pp (Record_input_4 cs v) c = [entry_at pp cs (Input_4 v)]"
| "call_entries pp (Record_input_8 cs v) c = [entry_at pp cs (Input_8 v)]"
| "call_entries pp (Record_interrupt_request cs v) c =
     (if v = c then [] else [entry_at pp cs (Interrupt_request v)])"
| "call_entries pp (Record_exit_request cs v) c =
     (if v = 0 then [] else [entry_at pp cs (Exit_request v)])"
| "call_entries pp (Record_cpu_mem_rw_call cs a b l) c =
     [entry_at pp cs (Call_args (RR_CALL_CPU_MEM_RW a b l))]"
| "call_entries pp (Record_cpu_mem_unmap cs a b l) c =
     [entry_at pp cs (Call_args (RR_CALL_CPU_MEM_UNMAP a b l))]"
| "call_entries pp (Record_memory_region_change cs a sz n m ad) c =
     [entry_at pp cs (Call_args (RR_CALL_MEM_REGION_CHANGE a sz n (of_nat (length n)) m ad))]"
| "call_entries pp (Record_hd_transfer cs t sa da n) c =
     [entry_at pp cs (Call_args (RR_CALL_HD_TRANSFER t sa da n))]"
| "call_entries pp (Record_net_transfer cs t sa da n) c =
     [entry_at pp cs (Call_args (RR_CALL_NET_TRANSFER t sa da n))]"
| "call_entries pp (Record_handle_packet_call cs p b sz d) c =
     [entry_at pp cs (Call_args (RR_CALL_HANDLE_PACKET p b sz d))]"

fun call_cache :: "rr_record_call \<Rightarrow> 32 word \<Rightarrow> 32 word" where
  "call_cache (Record_interrupt_request cs v) c = v"
| "call_cache call c = c"

fun session_entries ::
  "(RR_prog_point \<times> rr_record_call) list \<Rightarrow> 32 word \<Rightarrow> RR_log_entry list" where
  "session_entries [] c = []"
| "session_entries ((pp, call) # calls) c =
     call_entries pp call c @ session_entries calls (call_cache call c)"

fun session_cache :: "(RR_prog_point \<times> rr_record_call) list \<Rightarrow> 32 word \<Rightarrow> 32 word" where
  "session_cache [] c = c"
| "session_cache ((pp, call) # calls) c = session_cache calls (call_cache call c)"

lemma rr_prog_point_guest_at [simp]: "rr_prog_point (guest_at pp s) = pp"
  by (simp add: rr_prog_point_def guest_at_def)

lemma guest_at_fields [simp]:
  "log_file (guest_at pp s) = log_file s"
  "panda_current_interrupt_request (guest_at pp s) = panda_current_interrupt_request s"
  by (simp_all add: guest_at_def)

definition record_entries :: "RR_log_entry list \<Rightarrow> 32 word \<Rightarrow> rr_state \<Rightarrow> rr_error + rr_state" where
  "record_entries es c s =
     (case es of
        [] \<Rightarrow> Inr s
      | e # rest \<Rightarrow>
          if variant_writable (variant e)
          then Inr (recorded e (s\<lparr>panda_current_interrupt_request := c\<rparr>))
          else Inl (write_error (variant e)))"

lemma same_cache [simp]:
  "s\<lparr>panda_current_interrupt_request := panda_current_interrupt_request s\<rparr> = s"
  by simp

lemma do_record_call_recording:
  assumes "recording s"
  shows "do_record_call call s =
           record_entries
             (call_entries (rr_prog_point s) call (panda_current_interrupt_request s))
             (call_cache call (panda_current_interrupt_request s)) s"
proof (cases call)
  case (Record_interrupt_request cs v)
  then show ?thesis
    using rr_record_interrupt_request_recording [OF assms, of cs v]
    by (auto simp: record_entries_def new_item_def entry_at_def)
next
  case (Record_exit_request cs v)
  then show ?thesis
    using rr_record_exit_request_recording [OF assms, of cs v]
    by (auto simp: record_entries_def new_item_def entry_at_def)
qed (simp_all add: record_item [OF assms] record_entries_def new_item_def entry_at_def
       rr_record_debug_def rr_record_input_1_def rr_record_input_2_def
       rr_record_input_4_def rr_record_input_8_def rr_record_cpu_mem_rw_call_def
       rr_record_cpu_mem_unmap_def rr_record_memory_region_change_def
       rr_record_hd_transfer_def rr_record_net_transfer_def
       rr_record_handle_packet_call_def)

lemma record_entries_call_entries:
  assumes "recording s"
    "record_entries (call_entries pp call (panda_current_interrupt_request s))
       (call_cache call (panda_current_interrupt_request s)) s = Inr s'"
  shows "recording s'
         \<and> log_file s' = log_file s
              @ concat (map item_bytes (call_entries pp call (panda_current_interrupt_request s)))
         \<and> panda_current_interrupt_request s'
              = call_cache call (panda_current_interrupt_request s)
         \<and> (\<forall>e \<in> set (call_entries pp call (panda_current_interrupt_request s)).
               variant_writable (variant e))"
  using assms
  by (cases call) (auto simp: record_entries_def split: if_splits)

lemma rr_record_calls_recording:
  assumes "recording s" "rr_record_calls calls s = Inr s'"
  shows "recording s'
         \<and> log_file s' = log_file s
              @ concat (map item_bytes (session_entries calls (panda_current_interrupt_request s)))
         \<and> panda_current_interrupt_request s'
              = session_cache calls (panda_current_interrupt_request s)
         \<and> (\<forall>e \<in> set (session_entries calls (panda_current_interrupt_request s)).
               variant_writable (variant e))"
  using assms
proof (induction calls arbitrary: s)
  case Nil
  then show ?case by simp
next
  case (Cons a calls)
  obtain pp call where a: "a = (pp, call)" by (cases a)
  have r: "recording (guest_at pp s)" using Cons.prems(1) by simp
  obtain s1 where s1: "do_record_call call (guest_at pp s) = Inr s1"
    "rr_record_calls calls s1 = Inr s'"
    using Cons.prems(2) by (auto simp: a rr_bind_def split: sum.splits)
  have 1: "recording s1
         \<and> log_file s1 = log_file s
              @ concat (map item_bytes (call_entries pp call (panda_current_interrupt_request s)))
         \<and> panda_current_interrupt_request s1
              = call_cache call (panda_current_interrupt_request s)
         \<and> (\<forall>e \<in> set (call_entries pp call (panda_current_interrupt_request s)).
               variant_writable (variant e))"
    using record_entries_call_entries [OF r, of pp call s1] s1(1)
      do_record_call_recording [OF r, of call]
    by simp
  show ?case
    using Cons.IH [of s1] 1 s1(2) by (auto simp: a)
qed

section \<open>The claims\<close>


lemma session_interrupts_distinct_adj:
  "distinct_adj (map (\<lambda>e. interrupt_request (variant e))
       (filter (\<lambda>e. entry_kind e = RR_INTERRUPT_REQUEST) (session_entries calls c)))
   \<and> (\<forall>e es. filter (\<lambda>e. entry_kind e = RR_INTERRUPT_REQUEST) (session_entries calls c) = e # es
         \<longrightarrow> interrupt_request (variant e) \<noteq> c)"
proof (induction calls arbitrary: c)
  case Nil
  then show ?case by simp
next
  case (Cons a calls)
  obtain pp call where a: "a = (pp, call)" by (cases a)
  show ?case
  proof (cases call)
    case (Record_interrupt_request cs v)
    show ?thesis
      using Cons.IH [of c] Cons.IH [of v]
      by (cases "filter (\<lambda>e. entry_kind e = RR_INTERRUPT_REQUEST) (session_entries calls v)")
         (auto simp: a Record_interrupt_request entry_at_def entry_kind_def distinct_adj_Cons)
  next
    case (Record_exit_request cs v)
    then show ?thesis
      using Cons.IH [of c] by (auto simp: a entry_at_def entry_kind_def)
  qed (use Cons.IH [of c] in \<open>auto simp: a entry_at_def entry_kind_def\<close>)
qed

text \<open>
  C2 (interrupt compaction). In a recording state, \<^verbatim>\<open>rr_record_interrupt_request\<close> leaves
  the state as it is when the value equals the cached interrupt word; otherwise it
  appends the bytes of one RR_INTERRUPT_REQUEST entry carrying the value to the log file
  and sets the cache to the value. Hence, in the log of any sequence of record calls, the
  RR_INTERRUPT_REQUEST entries that follow one another never carry the same value.
\<close>

theorem interrupt_request_compaction:
  assumes "recording s"
  shows "(panda_current_interrupt_request s = v
            \<longrightarrow> rr_record_interrupt_request call_site v s = Inr s)
       \<and> (panda_current_interrupt_request s \<noteq> v
            \<longrightarrow> (\<exists>s'. rr_record_interrupt_request call_site v s = Inr s'
                   \<and> log_file s' = log_file s
                        @ item_bytes (entry_at (rr_prog_point s) call_site (Interrupt_request v))
                   \<and> panda_current_interrupt_request s' = v))
       \<and> (\<forall>calls s'. rr_record_calls calls s = Inr s'
            \<longrightarrow> log_file s' = log_file s
                   @ concat (map item_bytes
                       (session_entries calls (panda_current_interrupt_request s)))
              \<and> distinct_adj (map (\<lambda>e. interrupt_request (variant e))
                   (filter (\<lambda>e. entry_kind e = RR_INTERRUPT_REQUEST)
                      (session_entries calls (panda_current_interrupt_request s)))))"
  using rr_record_interrupt_request_recording [OF assms, of call_site v]
    rr_record_calls_recording [OF assms] session_interrupts_distinct_adj
  by (auto simp: new_item_def entry_at_def)

definition pp_of :: "nat \<Rightarrow> RR_prog_point" where
  "pp_of n = \<lparr>guest_instr_count = of_nat n, pc = 0, secondary = 0\<rparr>"

theorem interrupt_request_compaction_witness:
  "recording (rr_do_begin_record (rr_initial_state []))
   \<and> (\<exists>s'. rr_record_calls
          [(pp_of 5, Record_interrupt_request 1 1), (pp_of 6, Record_interrupt_request 1 1),
           (pp_of 7, Record_interrupt_request 1 2)]
          (rr_do_begin_record (rr_initial_state [])) = Inr s'
        \<and> log_file s' = prog_point_bytes zero_prog_point
             @ item_bytes (entry_at (pp_of 5) 1 (Interrupt_request 1))
             @ item_bytes (entry_at (pp_of 7) 1 (Interrupt_request 2)))"
proof -
  let ?s = "rr_do_begin_record (rr_initial_state [])"
  let ?calls = "[(pp_of 5, Record_interrupt_request 1 1), (pp_of 6, Record_interrupt_request 1 1),
           (pp_of 7, Record_interrupt_request 1 2)]"
  have r: "recording ?s" by simp
  have c: "panda_current_interrupt_request ?s = 0" "log_file ?s = prog_point_bytes zero_prog_point"
    by (simp_all add: rr_do_begin_record_def rr_reset_state_def rr_create_record_log_def
          rr_initial_state_def)
  have run: "\<exists>s'. rr_record_calls ?calls ?s = Inr s'"
    by (simp add: do_record_call_recording rr_record_interrupt_request_recording c)
  then obtain s' where s': "rr_record_calls ?calls ?s = Inr s'" by blast
  have "log_file s' = log_file ?s
          @ concat (map item_bytes (session_entries ?calls (panda_current_interrupt_request ?s)))"
    using interrupt_request_compaction [OF r, of 0 1] s' by blast
  then have f: "log_file s' = prog_point_bytes zero_prog_point
             @ item_bytes (entry_at (pp_of 5) 1 (Interrupt_request 1))
             @ item_bytes (entry_at (pp_of 7) 1 (Interrupt_request 2))"
    by (simp add: c)
  show ?thesis
    by (rule conjI [OF r], rule exI [of _ s'], rule conjI [OF s' f])
qed


lemma begin_record_fields [simp]:
  "log_file (rr_do_begin_record s) = prog_point_bytes zero_prog_point"
  "panda_current_interrupt_request (rr_do_begin_record s) = panda_current_interrupt_request s"
  by (simp_all add: rr_do_begin_record_def rr_reset_state_def rr_create_record_log_def)

lemma no_log_no_write:
  assumes "rr_nondet_log s = None"
  shows "do_record_call call s = Inl Null_pointer \<or> do_record_call call s = Inr s"
  using assms
  by (cases call)
     (simp_all add: set_current_item_def rr_record_debug_def rr_record_input_1_def
        rr_record_input_2_def rr_record_input_4_def rr_record_input_8_def
        rr_record_interrupt_request_def rr_record_exit_request_def
        rr_record_cpu_mem_rw_call_def rr_record_cpu_mem_unmap_def
        rr_record_memory_region_change_def rr_record_hd_transfer_def
        rr_record_net_transfer_def rr_record_handle_packet_call_def)

lemma create_replay_log_header:
  assumes "log_file s = prog_point_bytes pp @ rest"
  shows "\<exists>s' l. rr_create_replay_log s = Inr s' \<and> rr_nondet_log s' = Some l
           \<and> last_prog_point l = pp \<and> fp l = Some 24 \<and> bytes_read l = 24
           \<and> log_size l = length (log_file s) \<and> log_type l = REPLAY
           \<and> log_file s' = log_file s \<and> rr_queue s' = rr_queue s
           \<and> panda_current_interrupt_request s' = panda_current_interrupt_request s"
proof -
  let ?s0 = "s\<lparr>rr_nondet_log :=
               Some \<lparr>log_type = REPLAY, fp = Some 0, last_prog_point = zero_prog_point,
                     bytes_read = 0, log_size = length (log_file s), item_number = 0,
                     current_item = zero_entry\<rparr>\<rparr>"
  have a: "ahead ?s0 (prog_point_bytes pp @ rest)"
    using assms by (simp add: ahead_def)
  have "rr_fread 24 1 ?s0 = Inr (prog_point_bytes pp, advance 24 ?s0)"
    using rr_fread_ahead [OF a, of 24 1] by simp
  then show ?thesis
    by (simp add: rr_create_replay_log_def set_last_prog_point_def advance_def)
qed

text \<open>
  C5 (terminator and header). A record session is \<^verbatim>\<open>rr_do_begin_record\<close>, any record
  calls, and \<^verbatim>\<open>rr_do_end_record\<close> at the guest's final program point. Ending it succeeds;
  the log file then holds the final program point as its header, the entries of the
  calls, and one RR_LAST entry at the final program point as its last bytes; the
  instruction count of that program point is the guest's instruction count. The log is
  closed and the mode is off, so that a later record call writes nothing: it fails, or
  (when it has nothing to write) returns the state as it is. Opened for replay, the file
  gives the final program point as \<^verbatim>\<open>last_prog_point\<close>.
\<close>

theorem end_record_writes_last:
  assumes "rr_record_calls calls (rr_do_begin_record s0) = Inr s1"
  shows "\<exists>s2. rr_do_end_record h (guest_at pp s1) = Inr s2
           \<and> log_file s2 = prog_point_bytes pp
                @ concat (map item_bytes
                    (session_entries calls (panda_current_interrupt_request s0)
                       @ [entry_at pp (RR_CALLSITE_LAST h) Last]))
           \<and> guest_instr_count pp = rr_get_guest_instr_count (guest_at pp s1)
           \<and> rr_mode s2 = RR_OFF \<and> rr_nondet_log s2 = None
           \<and> (\<forall>call pp'. do_record_call call (guest_at pp' s2) = Inl Null_pointer
                 \<or> do_record_call call (guest_at pp' s2) = Inr (guest_at pp' s2))
           \<and> (\<exists>s3 l. rr_create_replay_log s2 = Inr s3 \<and> rr_nondet_log s3 = Some l
                 \<and> last_prog_point l = pp)"
proof -
  have r1: "recording s1"
    and f1: "log_file s1 = prog_point_bytes zero_prog_point
               @ concat (map item_bytes
                   (session_entries calls (panda_current_interrupt_request s0)))"
    using rr_record_calls_recording [OF recording_begin assms] by simp_all
  let ?s2 = "closed h (guest_at pp s1)"
  have e: "rr_do_end_record h (guest_at pp s1) = Inr ?s2"
    using rr_do_end_record_recording [of "guest_at pp s1" h] r1 by simp
  have f2: "log_file ?s2 = prog_point_bytes pp
              @ concat (map item_bytes
                  (session_entries calls (panda_current_interrupt_request s0)
                     @ [entry_at pp (RR_CALLSITE_LAST h) Last]))"
    by (simp add: closed_def f1 new_item_def entry_at_def)
  have n: "rr_nondet_log ?s2 = None" "rr_mode ?s2 = RR_OFF"
    by (simp_all add: closed_def)
  have w: "\<And>call pp'. do_record_call call (guest_at pp' ?s2) = Inl Null_pointer
             \<or> do_record_call call (guest_at pp' ?s2) = Inr (guest_at pp' ?s2)"
    by (rule no_log_no_write) (simp add: guest_at_def closed_def)
  have g: "guest_instr_count pp = rr_get_guest_instr_count (guest_at pp s1)"
    by (simp add: rr_get_guest_instr_count_def guest_at_def)
  have o: "\<exists>s3 l. rr_create_replay_log ?s2 = Inr s3 \<and> rr_nondet_log s3 = Some l
                 \<and> last_prog_point l = pp"
    using create_replay_log_header [OF f2] by blast
  show ?thesis
    using e f2 g n w o by blast
qed

theorem end_record_writes_last_witness:
  "\<exists>s1. rr_record_calls [(pp_of 10, Record_input_1 1 0x42)]
            (rr_do_begin_record (rr_initial_state [])) = Inr s1
       \<and> (\<exists>s2. rr_do_end_record rr_log_h_model (guest_at (pp_of 11) s1) = Inr s2
            \<and> log_file s2 = prog_point_bytes (pp_of 11)
                 @ item_bytes (entry_at (pp_of 10) 1 (Input_1 0x42))
                 @ item_bytes (entry_at (pp_of 11) (RR_CALLSITE_LAST rr_log_h_model) Last))"
proof -
  let ?s = "rr_do_begin_record (rr_initial_state [])"
  have "\<exists>s1. rr_record_calls [(pp_of 10, Record_input_1 1 0x42)] ?s = Inr s1"
    by (simp add: do_record_call_recording record_entries_def entry_at_def del: do_record_call.simps)
  then obtain s1 where s1: "rr_record_calls [(pp_of 10, Record_input_1 1 0x42)] ?s = Inr s1"
    by blast
  obtain s2 where s2: "rr_do_end_record rr_log_h_model (guest_at (pp_of 11) s1) = Inr s2"
    "log_file s2 = prog_point_bytes (pp_of 11)
                @ concat (map item_bytes
                    (session_entries [(pp_of 10, Record_input_1 1 0x42)]
                       (panda_current_interrupt_request (rr_initial_state []))
                       @ [entry_at (pp_of 11) (RR_CALLSITE_LAST rr_log_h_model) Last]))"
    using end_record_writes_last [OF s1, of rr_log_h_model "pp_of 11"] by blast
  have f: "log_file s2 = prog_point_bytes (pp_of 11)
                 @ item_bytes (entry_at (pp_of 10) 1 (Input_1 0x42))
                 @ item_bytes (entry_at (pp_of 11) (RR_CALLSITE_LAST rr_log_h_model) Last)"
    using s2(2) by simp
  show ?thesis
    by (rule exI [of _ s1], rule conjI [OF s1], rule exI [of _ s2], rule conjI [OF s2(1) f])
qed


lemma entry_at_fields [simp]:
  "prog_point (entry_at pp cs v) = pp"
  "callsite_loc (entry_at pp cs v) = cs"
  "variant (entry_at pp cs v) = v"
  "entry_kind (entry_at pp cs v) = kind_of v"
  by (simp_all add: entry_at_def entry_kind_def)

text \<open>
  C8 (reset of the interrupt cache). \<^verbatim>\<open>rr_do_begin_record\<close> and \<^verbatim>\<open>rr_reset_state\<close> leave
  \<^verbatim>\<open>panda_current_interrupt_request\<close> as the previous session left it. Two record
  sessions in one process, each with one call \<^verbatim>\<open>rr_record_interrupt_request(1, 5)\<close>: the
  first session writes the entry; the second writes nothing (its log file holds the
  header only), although 5 differs from the initial value 0 of the cache.
\<close>

theorem interrupt_cache_survives_sessions:
  "panda_current_interrupt_request (rr_do_begin_record s) = panda_current_interrupt_request s
   \<and> rr_bind (rr_record_interrupt_request 1 5
                (guest_at (pp_of 5) (rr_do_begin_record (rr_initial_state []))))
       (\<lambda>s1. rr_bind (rr_do_end_record h (guest_at (pp_of 6) s1))
         (\<lambda>s2. rr_bind (rr_record_interrupt_request 1 5
                          (guest_at (pp_of 5) (rr_do_begin_record s2)))
           (\<lambda>s3. Inr (log_file s1, log_file s3, panda_current_interrupt_request s3))))
     = Inr (prog_point_bytes zero_prog_point
              @ item_bytes (entry_at (pp_of 5) 1 (Interrupt_request 5)),
            prog_point_bytes zero_prog_point, 5)"
proof -
  let ?s0 = "guest_at (pp_of 5) (rr_do_begin_record (rr_initial_state []))"
  let ?s1 = "recorded (new_item 1 (Interrupt_request 5) ?s0)
               (?s0\<lparr>panda_current_interrupt_request := 5\<rparr>)"
  have c0: "panda_current_interrupt_request ?s0 = 0"
    by (simp add: rr_initial_state_def)
  have 1: "rr_record_interrupt_request 1 5 ?s0 = Inr ?s1"
    using rr_record_interrupt_request_recording [of ?s0 1 5] c0 by simp
  have r1: "recording (guest_at (pp_of 6) ?s1)" by simp
  have 2: "rr_do_end_record h (guest_at (pp_of 6) ?s1) = Inr (closed h (guest_at (pp_of 6) ?s1))"
    by (rule rr_do_end_record_recording [OF r1])
  let ?s2 = "closed h (guest_at (pp_of 6) ?s1)"
  have c2: "panda_current_interrupt_request ?s2 = 5"
    by (simp add: closed_def)
  let ?s3 = "guest_at (pp_of 5) (rr_do_begin_record ?s2)"
  have 3: "rr_record_interrupt_request 1 5 ?s3 = Inr ?s3"
    using rr_record_interrupt_request_recording [of ?s3 1 5] c2 by simp
  have f1: "log_file ?s1 = prog_point_bytes zero_prog_point
              @ item_bytes (entry_at (pp_of 5) 1 (Interrupt_request 5))"
    by (simp add: new_item_def entry_at_def)
  show ?thesis
    by (simp only: 1 2 3 rr_bind_simps f1 begin_record_fields guest_at_fields c2)
qed


section \<open>Replay of an encoded file\<close>

text \<open>
  A state is replaying a byte list when the mode is RR_REPLAY and the replay log is
  open on the file, with the size of the file as its size, the position of its stream
  as the count of bytes read, and the byte list as the rest of the file.
\<close>

definition replaying :: "rr_state \<Rightarrow> byte list \<Rightarrow> bool" where
  "replaying s bs =
     (rr_in_replay s
      \<and> (case rr_nondet_log s of
           None \<Rightarrow> False
         | Some l \<Rightarrow>
             log_type l = REPLAY \<and> log_size l = length (log_file s)
             \<and> fp l = Some (bytes_read l) \<and> bytes_read l \<le> length (log_file s)
             \<and> drop (bytes_read l) (log_file s) = bs))"

definition after_read :: "RR_log_entry \<Rightarrow> rr_state \<Rightarrow> rr_state" where
  "after_read e s = alloc_new_entry (inc_item_number (advance (length (item_bytes e)) s))"

definition log_pos :: "rr_state \<Rightarrow> nat" where
  "log_pos s = (case rr_nondet_log s of None \<Rightarrow> 0 | Some l \<Rightarrow> bytes_read l)"

lemma length_item_bytes: "length (item_bytes e) = 32 + length (variant_bytes (variant e))"
  by (simp add: item_bytes_def)

lemma replaying_empty:
  assumes "replaying s bs" "rr_nondet_log s = Some l"
  shows "rr_log_is_empty l \<longleftrightarrow> bs = []"
  using assms by (auto simp: replaying_def rr_log_is_empty_def)

lemma after_read_fields [simp]:
  "rr_queue (after_read e s) = rr_queue s"
  "log_file (after_read e s) = log_file s"
  "rr_mode (after_read e s) = rr_mode s"
  "panda_current_interrupt_request (after_read e s) = panda_current_interrupt_request s"
  "recycle_list (after_read e s) = tl (recycle_list s)"
  "rr_log_entry_history (after_read e s) = rr_log_entry_history s"
  "rr_hist_index (after_read e s) = rr_hist_index s"
  "rr_guest_instr_count (after_read e s) = rr_guest_instr_count s"
  "guest_pc (after_read e s) = guest_pc s"
  "guest_secondary (after_read e s) = guest_secondary s"
  by (simp_all add: after_read_def alloc_new_entry_def inc_item_number_def advance_def)

lemma rr_read_item_replaying:
  assumes "replaying s (item_bytes e @ rest)" "variant_writable (variant e)"
  shows "rr_read_item s = Inr (decoded (log_pos s) e, after_read e s)"
    and "replaying (after_read e s) rest"
    and "log_pos (after_read e s) = log_pos s + length (item_bytes e)"
proof -
  obtain l where l: "rr_nondet_log s = Some l" "log_type l = REPLAY"
    "log_size l = length (log_file s)" "fp l = Some (bytes_read l)"
    "bytes_read l \<le> length (log_file s)"
    "drop (bytes_read l) (log_file s) = item_bytes e @ rest" "rr_in_replay s"
    using assms(1) by (auto simp: replaying_def split: option.splits)
  have a: "ahead s (item_bytes e @ rest)"
    using l by (simp add: ahead_def)
  have "length (item_bytes e @ rest) \<noteq> 0"
    by (simp add: length_item_bytes)
  then have "item_bytes e @ rest \<noteq> []"
    by (simp only: length_0_conv not_False_eq_True)
  then have ne: "\<not> rr_log_is_empty l"
    using replaying_empty [OF assms(1) l(1)] by simp
  show "rr_read_item s = Inr (decoded (log_pos s) e, after_read e s)"
    using rr_read_item_ahead [OF a l(7) l(1) ne assms(2)]
    by (simp add: after_read_def log_pos_def l(1))
  have "length (drop (bytes_read l) (log_file s)) = length (item_bytes e) + length rest"
    using l(6) by simp
  then have le: "bytes_read l + length (item_bytes e) \<le> length (log_file s)"
    using l(5) by simp
  have "drop (bytes_read l + length (item_bytes e)) (log_file s)
          = drop (length (item_bytes e)) (drop (bytes_read l) (log_file s))"
    by (simp add: add.commute)
  then have d: "drop (bytes_read l + length (item_bytes e)) (log_file s) = rest"
    using l(6) by simp
  show "replaying (after_read e s) rest"
    using l le d
    by (simp add: replaying_def after_read_def alloc_new_entry_def inc_item_number_def
          advance_def rr_in_replay_def)
  show "log_pos (after_read e s) = log_pos s + length (item_bytes e)"
    using l by (simp add: log_pos_def after_read_def alloc_new_entry_def inc_item_number_def
          advance_def)
qed

fun rr_read_n :: "nat \<Rightarrow> rr_state \<Rightarrow> rr_error + (RR_log_entry list \<times> rr_state)" where
  "rr_read_n 0 s = Inr ([], s)"
| "rr_read_n (Suc n) s =
     rr_bind (rr_read_item s) (\<lambda>(e, s1).
     rr_bind (rr_read_n n s1) (\<lambda>(es, s2). Inr (e # es, s2)))"

fun decoded_from :: "nat \<Rightarrow> RR_log_entry list \<Rightarrow> RR_log_entry list" where
  "decoded_from pos [] = []"
| "decoded_from pos (e # es) = decoded pos e # decoded_from (pos + length (item_bytes e)) es"

lemma rr_read_n_replaying:
  assumes "replaying s (concat (map item_bytes es))"
    "\<forall>e \<in> set es. variant_writable (variant e)"
  shows "\<exists>s'. rr_read_n (length es) s = Inr (decoded_from (log_pos s) es, s')
           \<and> replaying s' []"
  using assms
proof (induction es arbitrary: s)
  case Nil
  then show ?case by simp
next
  case (Cons e es)
  have r: "replaying s (item_bytes e @ concat (map item_bytes es))"
    using Cons.prems(1) by simp
  have w: "variant_writable (variant e)" using Cons.prems(2) by simp
  note step = rr_read_item_replaying [OF r w]
  obtain s' where s': "rr_read_n (length es) (after_read e s)
                         = Inr (decoded_from (log_pos (after_read e s)) es, s')"
    "replaying s' []"
    using Cons.IH [OF step(2)] Cons.prems(2) by auto
  show ?case
    using s' step(1) step(3) by simp
qed


fun exact_args :: "RR_skipped_call_args \<Rightarrow> bool" where
  "exact_args (RR_CALL_CPU_MEM_RW a b l) = (length b = size_t_of_int l)"
| "exact_args (RR_CALL_CPU_MEM_UNMAP a b l) = (length b = unat l)"
| "exact_args (RR_CALL_MEM_REGION_CHANGE a sz n l m ad) = (length n = unat l)"
| "exact_args (RR_CALL_HANDLE_PACKET p b sz d) = (length b = size_t_of_int sz)"
| "exact_args args = True"

fun exact_variant :: "RR_variant \<Rightarrow> bool" where
  "exact_variant (Call_args args) = exact_args args"
| "exact_variant v = True"

lemma cut_variant_exact: "exact_variant v \<Longrightarrow> cut_variant v = v"
proof (cases v)
  case (Call_args a)
  assume "exact_variant v"
  then show ?thesis by (cases a) (simp_all add: Call_args)
qed simp_all

lemma kind_of_cut_variant [simp]: "kind_of (cut_variant v) = kind_of v"
  by (cases v) simp_all

lemma decoded_from_maps:
  "map prog_point (decoded_from pos es) = map prog_point es"
  "map callsite_loc (decoded_from pos es) = map callsite_loc es"
  "map entry_kind (decoded_from pos es) = map entry_kind es"
  "map variant (decoded_from pos es) = map (\<lambda>e. cut_variant (variant e)) es"
  by (induction es arbitrary: pos) (simp_all add: decoded_def entry_kind_def)

lemma map_cut_variant_exact:
  "\<forall>e \<in> set es. exact_variant (variant e)
     \<Longrightarrow> map (\<lambda>e. cut_variant (variant e)) es = map variant es"
  by (induction es) (simp_all add: cut_variant_exact)

text \<open>
  C1 (round trip). Take any record session: \<^verbatim>\<open>rr_do_begin_record\<close>, any sequence of record
  calls that \<^verbatim>\<open>rr_write_item\<close> serializes without failing, and \<^verbatim>\<open>rr_do_end_record\<close>. Opening
  the file for replay and calling \<^verbatim>\<open>rr_read_item\<close> once for every entry of the session
  (the entries of the calls after compaction, then RR_LAST) succeeds, leaves the log empty
  and returns, in order, entries with the kinds, the program points, the call sites and
  the payloads of the recorded ones, each tail buffer being the first bytes of the
  recorded buffer up to its recorded length (the whole buffer when it has that length).
\<close>

theorem record_replay_round_trip:
  assumes "rr_record_calls calls (rr_do_begin_record s0) = Inr s1"
  shows "\<exists>s2 s3 s4 l ds.
           rr_do_end_record h (guest_at pp s1) = Inr s2
         \<and> rr_create_replay_log s2 = Inr s3
         \<and> rr_read_n
              (length (session_entries calls (panda_current_interrupt_request s0)
                         @ [entry_at pp (RR_CALLSITE_LAST h) Last]))
              (s3\<lparr>rr_mode := RR_REPLAY\<rparr>) = Inr (ds, s4)
         \<and> rr_nondet_log s4 = Some l \<and> rr_log_is_empty l
         \<and> map entry_kind ds
             = map entry_kind (session_entries calls (panda_current_interrupt_request s0)
                                 @ [entry_at pp (RR_CALLSITE_LAST h) Last])
         \<and> map prog_point ds
             = map prog_point (session_entries calls (panda_current_interrupt_request s0)
                                 @ [entry_at pp (RR_CALLSITE_LAST h) Last])
         \<and> map callsite_loc ds
             = map callsite_loc (session_entries calls (panda_current_interrupt_request s0)
                                   @ [entry_at pp (RR_CALLSITE_LAST h) Last])
         \<and> map variant ds
             = map (\<lambda>e. cut_variant (variant e))
                 (session_entries calls (panda_current_interrupt_request s0)
                    @ [entry_at pp (RR_CALLSITE_LAST h) Last])
         \<and> ((\<forall>e \<in> set (session_entries calls (panda_current_interrupt_request s0)).
                 exact_variant (variant e))
              \<longrightarrow> map variant ds
                    = map variant (session_entries calls (panda_current_interrupt_request s0)
                                     @ [entry_at pp (RR_CALLSITE_LAST h) Last]))"
proof -
  let ?es = "session_entries calls (panda_current_interrupt_request s0)
               @ [entry_at pp (RR_CALLSITE_LAST h) Last]"
  have r1: "recording s1"
    and f1: "log_file s1 = prog_point_bytes zero_prog_point
               @ concat (map item_bytes
                   (session_entries calls (panda_current_interrupt_request s0)))"
    and w1: "\<forall>e \<in> set (session_entries calls (panda_current_interrupt_request s0)).
               variant_writable (variant e)"
    using rr_record_calls_recording [OF recording_begin assms] by simp_all
  let ?s2 = "closed h (guest_at pp s1)"
  have e: "rr_do_end_record h (guest_at pp s1) = Inr ?s2"
    using rr_do_end_record_recording [of "guest_at pp s1" h] r1 by simp
  have f2: "log_file ?s2 = prog_point_bytes pp @ concat (map item_bytes ?es)"
    by (simp add: closed_def f1 new_item_def entry_at_def)
  obtain s3 l3 where s3: "rr_create_replay_log ?s2 = Inr s3" "rr_nondet_log s3 = Some l3"
    "fp l3 = Some 24" "bytes_read l3 = 24" "log_size l3 = length (log_file ?s2)"
    "log_type l3 = REPLAY" "log_file s3 = log_file ?s2"
    using create_replay_log_header [OF f2] by blast
  let ?s3 = "s3\<lparr>rr_mode := RR_REPLAY\<rparr>"
  have rp: "replaying ?s3 (concat (map item_bytes ?es))"
    using s3 by (simp add: replaying_def rr_in_replay_def f2)
  have w: "\<forall>e \<in> set ?es. variant_writable (variant e)"
    using w1 by simp
  have p: "log_pos ?s3 = 24"
    using s3 by (simp add: log_pos_def)
  obtain s4 where s4: "rr_read_n (length ?es) ?s3 = Inr (decoded_from 24 ?es, s4)"
    "replaying s4 []"
    using rr_read_n_replaying [OF rp w] p by auto
  obtain l4 where l4: "rr_nondet_log s4 = Some l4" "rr_log_is_empty l4"
    using s4(2) replaying_empty [OF s4(2)]
    by (auto simp: replaying_def split: option.splits)
  have x: "(\<forall>e \<in> set (session_entries calls (panda_current_interrupt_request s0)).
                 exact_variant (variant e))
              \<longrightarrow> map variant (decoded_from 24 ?es) = map variant ?es"
    using map_cut_variant_exact [of ?es] by (simp add: decoded_from_maps)
  show ?thesis
    using e s3(1) s4(1) l4 x decoded_from_maps [of 24 ?es] by blast
qed


theorem record_replay_round_trip_witness:
  "\<exists>s1 s2 s3 s4 ds.
       rr_record_calls
         [(pp_of 10, Record_input_1 1 0x42),
          (pp_of 11, Record_cpu_mem_rw_call 2 0x1000 [1, 2, 3] 3),
          (pp_of 12, Record_memory_region_change 2 0x1000 0x100 [100, 101, 118, 48] 1 True),
          (pp_of 12, Record_exit_request 3 0)]
         (rr_do_begin_record (rr_initial_state [])) = Inr s1
     \<and> rr_do_end_record rr_log_h_model (guest_at (pp_of 13) s1) = Inr s2
     \<and> rr_create_replay_log s2 = Inr s3
     \<and> rr_read_n 4 (s3\<lparr>rr_mode := RR_REPLAY\<rparr>) = Inr (ds, s4)
     \<and> map entry_kind ds = [RR_INPUT_1, RR_SKIPPED_CALL, RR_SKIPPED_CALL, RR_LAST]
     \<and> map prog_point ds = [pp_of 10, pp_of 11, pp_of 12, pp_of 13]
     \<and> map variant ds =
         [Input_1 0x42, Call_args (RR_CALL_CPU_MEM_RW 0x1000 [1, 2, 3] 3),
          Call_args (RR_CALL_MEM_REGION_CHANGE 0x1000 0x100 [100, 101, 118, 48] 4 1 True),
          Last]"
proof -
  let ?calls = "[(pp_of 10, Record_input_1 1 0x42),
          (pp_of 11, Record_cpu_mem_rw_call 2 0x1000 [1, 2, 3] 3),
          (pp_of 12, Record_memory_region_change 2 0x1000 0x100 [100, 101, 118, 48] 1 True),
          (pp_of 12, Record_exit_request 3 0)]"
  let ?s = "rr_do_begin_record (rr_initial_state [])"
  have sz: "size_t_of_int 3 = 3" by (simp add: size_t_of_int_def)
  have "\<exists>s1. rr_record_calls ?calls ?s = Inr s1"
    by (simp add: do_record_call_recording record_entries_def sz
          del: do_record_call.simps)
  then obtain s1 where s1: "rr_record_calls ?calls ?s = Inr s1" by blast
  have c: "panda_current_interrupt_request (rr_initial_state []) = 0"
    by (simp add: rr_initial_state_def)
  have es: "session_entries ?calls 0 @ [entry_at (pp_of 13) (RR_CALLSITE_LAST rr_log_h_model) Last]
         = [entry_at (pp_of 10) 1 (Input_1 0x42),
            entry_at (pp_of 11) 2 (Call_args (RR_CALL_CPU_MEM_RW 0x1000 [1, 2, 3] 3)),
            entry_at (pp_of 12) 2
              (Call_args (RR_CALL_MEM_REGION_CHANGE 0x1000 0x100 [100, 101, 118, 48] 4 1 True)),
            entry_at (pp_of 13) (RR_CALLSITE_LAST rr_log_h_model) Last]"
    by simp
  obtain s2 s3 s4 ds where r:
    "rr_do_end_record rr_log_h_model (guest_at (pp_of 13) s1) = Inr s2"
    "rr_create_replay_log s2 = Inr s3"
    "rr_read_n (length (session_entries ?calls (panda_current_interrupt_request (rr_initial_state []))
                         @ [entry_at (pp_of 13) (RR_CALLSITE_LAST rr_log_h_model) Last]))
              (s3\<lparr>rr_mode := RR_REPLAY\<rparr>) = Inr (ds, s4)"
    "map entry_kind ds
             = map entry_kind (session_entries ?calls (panda_current_interrupt_request (rr_initial_state []))
                                 @ [entry_at (pp_of 13) (RR_CALLSITE_LAST rr_log_h_model) Last])"
    "map prog_point ds
             = map prog_point (session_entries ?calls (panda_current_interrupt_request (rr_initial_state []))
                                 @ [entry_at (pp_of 13) (RR_CALLSITE_LAST rr_log_h_model) Last])"
    "map variant ds
             = map (\<lambda>e. cut_variant (variant e))
                 (session_entries ?calls (panda_current_interrupt_request (rr_initial_state []))
                    @ [entry_at (pp_of 13) (RR_CALLSITE_LAST rr_log_h_model) Last])"
    using record_replay_round_trip [OF s1, of rr_log_h_model "pp_of 13"] by blast
  have len: "length (session_entries ?calls (panda_current_interrupt_request (rr_initial_state []))
                         @ [entry_at (pp_of 13) (RR_CALLSITE_LAST rr_log_h_model) Last]) = 4"
    by (simp only: c es) simp
  have 3: "rr_read_n 4 (s3\<lparr>rr_mode := RR_REPLAY\<rparr>) = Inr (ds, s4)"
    using r(3) by (simp only: len)
  have 4: "map entry_kind ds = [RR_INPUT_1, RR_SKIPPED_CALL, RR_SKIPPED_CALL, RR_LAST]"
    using r(4) by (simp only: c es) simp
  have 5: "map prog_point ds = [pp_of 10, pp_of 11, pp_of 12, pp_of 13]"
    using r(5) by (simp only: c es) simp
  have 6: "map variant ds =
         [Input_1 0x42, Call_args (RR_CALL_CPU_MEM_RW 0x1000 [1, 2, 3] 3),
          Call_args (RR_CALL_MEM_REGION_CHANGE 0x1000 0x100 [100, 101, 118, 48] 4 1 True),
          Last]"
    using r(6) by (simp only: c es) (simp add: sz)
  show ?thesis
    by (intro exI conjI) (rule s1 r(1) r(2) 3 4 5 6)+
qed


section \<open>What reading changes\<close>

definition remaining :: "rr_state \<Rightarrow> nat" where
  "remaining s =
     (case rr_nondet_log s of
        None \<Rightarrow> 0
      | Some l \<Rightarrow> (case fp l of None \<Rightarrow> 0 | Some pos \<Rightarrow> length (log_file s) - pos))"

text \<open>Only the log changes, and the stream moves on by k bytes of the file.\<close>

definition reads :: "rr_state \<Rightarrow> rr_state \<Rightarrow> nat \<Rightarrow> bool" where
  "reads s s' k =
     (s' = s\<lparr>rr_nondet_log := rr_nondet_log s'\<rparr> \<and> rr_nondet_log s' \<noteq> None
      \<and> remaining s' + k = remaining s)"

lemma reads_refl: "rr_nondet_log s \<noteq> None \<Longrightarrow> reads s s 0"
  by (auto simp: reads_def)

lemma reads_trans: "reads s s1 a \<Longrightarrow> reads s1 s2 b \<Longrightarrow> reads s s2 (a + b)"
proof -
  assume a: "reads s s1 a" and b: "reads s1 s2 b"
  have "s2 = s1\<lparr>rr_nondet_log := rr_nondet_log s2\<rparr>" using b by (simp add: reads_def)
  also have "s1 = s\<lparr>rr_nondet_log := rr_nondet_log s1\<rparr>" using a by (simp add: reads_def)
  finally have "s2 = s\<lparr>rr_nondet_log := rr_nondet_log s2\<rparr>" by simp
  then show ?thesis using a b by (simp add: reads_def)
qed

lemma rr_fread_reads:
  assumes "rr_fread sz nmemb s = Inr (bs, s')"
  shows "reads s s' (sz * nmemb)"
  using assms
  by (auto simp: rr_fread_def reads_def remaining_def split: option.splits if_splits)

lemma read_call_args_reads:
  assumes "read_call_args k s = Inr (a, s')"
  shows "\<exists>n. reads s s' n"
proof -
  show ?thesis
    using assms
    by (auto simp: read_call_args_def rr_bind_def
          split: if_splits sum.splits prod.splits
          dest!: rr_fread_reads intro: reads_trans)
qed


lemma read_variant_reads:
  assumes "read_variant k s = Inr (v, s')" "rr_nondet_log s \<noteq> None"
  shows "\<exists>n. reads s s' n"
  using assms
  by (auto simp: read_variant_def rr_bind_def
        split: if_splits sum.splits prod.splits
        dest!: rr_fread_reads read_call_args_reads intro: reads_trans reads_refl)

lemma reads_fields:
  assumes "reads s s' n"
  shows "rr_queue s' = rr_queue s" "rr_mode s' = rr_mode s" "log_file s' = log_file s"
    "panda_current_interrupt_request s' = panda_current_interrupt_request s"
    "rr_guest_instr_count s' = rr_guest_instr_count s" "guest_pc s' = guest_pc s"
    "guest_secondary s' = guest_secondary s" "recycle_list s' = recycle_list s"
    "rr_log_entry_history s' = rr_log_entry_history s" "rr_hist_index s' = rr_hist_index s"
    "guest_effects s' = guest_effects s"
    "rr_max_num_queue_entries s' = rr_max_num_queue_entries s"
proof -
  have e: "s' = s\<lparr>rr_nondet_log := rr_nondet_log s'\<rparr>"
    using assms by (simp add: reads_def)
  show "rr_queue s' = rr_queue s" by (subst e) simp
  show "rr_mode s' = rr_mode s" by (subst e) simp
  show "log_file s' = log_file s" by (subst e) simp
  show "panda_current_interrupt_request s' = panda_current_interrupt_request s"
    by (subst e) simp
  show "rr_guest_instr_count s' = rr_guest_instr_count s" by (subst e) simp
  show "guest_pc s' = guest_pc s" by (subst e) simp
  show "guest_secondary s' = guest_secondary s" by (subst e) simp
  show "recycle_list s' = recycle_list s" by (subst e) simp
  show "rr_log_entry_history s' = rr_log_entry_history s" by (subst e) simp
  show "rr_hist_index s' = rr_hist_index s" by (subst e) simp
  show "guest_effects s' = guest_effects s" by (subst e) simp
  show "rr_max_num_queue_entries s' = rr_max_num_queue_entries s" by (subst e) simp
qed

lemma remaining_shell [simp]:
  "remaining (alloc_new_entry s) = remaining s"
  "remaining (inc_item_number s) = remaining s"
  by (auto simp: remaining_def alloc_new_entry_def inc_item_number_def split: option.splits)

text \<open>
  What \<^verbatim>\<open>rr_read_item\<close> changes when it returns: the log, whose stream has moved on by
  the 32 bytes of a header at least, and the recycle list, which has lost its first shell.
\<close>

lemma rr_read_item_frame:
  assumes "rr_read_item s = Inr (e, s')"
  shows "rr_queue s' = rr_queue s" "rr_mode s' = rr_mode s" "log_file s' = log_file s"
    "panda_current_interrupt_request s' = panda_current_interrupt_request s"
    "rr_prog_point s' = rr_prog_point s" "recycle_list s' = tl (recycle_list s)"
    "rr_log_entry_history s' = rr_log_entry_history s" "rr_hist_index s' = rr_hist_index s"
    "guest_effects s' = guest_effects s"
    "rr_max_num_queue_entries s' = rr_max_num_queue_entries s"
    "remaining s' + 32 \<le> remaining s" "rr_nondet_log s' \<noteq> None"
proof -
  obtain l where l: "rr_nondet_log s = Some l"
    using assms by (auto simp: rr_read_item_def split: option.splits)
  obtain b1 s1 b2 s2 b3 s3 v s4 where r:
    "rr_fread 24 1 s = Inr (b1, s1)" "rr_fread 4 1 s1 = Inr (b2, s2)"
    "rr_fread 4 1 s2 = Inr (b3, s3)" "read_variant (le_word b2) s3 = Inr (v, s4)"
    "s' = alloc_new_entry (inc_item_number s4)"
    using assms l
    by (auto simp: rr_read_item_def rr_bind_def
          split: if_splits sum.splits prod.splits)
  have 1: "reads s s1 24" using rr_fread_reads [OF r(1)] by simp
  have 2: "reads s1 s2 4" using rr_fread_reads [OF r(2)] by simp
  have 3: "reads s2 s3 4" using rr_fread_reads [OF r(3)] by simp
  have 03: "reads s s3 32" using reads_trans [OF reads_trans [OF 1 2] 3] by simp
  have "rr_nondet_log s3 \<noteq> None" using 03 by (simp add: reads_def)
  then obtain n where 4: "reads s3 s4 n" using read_variant_reads [OF r(4)] by blast
  have 04: "reads s s4 (32 + n)" using reads_trans [OF 03 4] .
  note f = reads_fields [OF 04]
  show "rr_queue s' = rr_queue s" "rr_mode s' = rr_mode s" "log_file s' = log_file s"
    "panda_current_interrupt_request s' = panda_current_interrupt_request s"
    "rr_prog_point s' = rr_prog_point s" "recycle_list s' = tl (recycle_list s)"
    "rr_log_entry_history s' = rr_log_entry_history s" "rr_hist_index s' = rr_hist_index s"
    "guest_effects s' = guest_effects s"
    "rr_max_num_queue_entries s' = rr_max_num_queue_entries s"
    using f by (simp_all add: r(5) alloc_new_entry_def inc_item_number_def rr_prog_point_def)
  show "remaining s' + 32 \<le> remaining s"
    using 04 by (simp add: r(5) reads_def)
  show "rr_nondet_log s' \<noteq> None"
    using 04 by (simp add: r(5) reads_def alloc_new_entry_def inc_item_number_def)
qed


section \<open>Filling the queue\<close>

declare rr_fill_loop.simps [simp del]

text \<open>A boundary entry: one of the kinds at which \<^verbatim>\<open>rr_fill_queue\<close> cuts the queue off.\<close>

definition boundary :: "rr_log_h \<Rightarrow> RR_log_entry \<Rightarrow> bool" where
  "boundary h e =
     ((entry_kind e = RR_SKIPPED_CALL \<and> callsite_loc e = RR_CALLSITE_MAIN_LOOP_WAIT h)
      \<or> entry_kind e = RR_INTERRUPT_REQUEST)"

lemma remaining_queue [simp]: "remaining (s\<lparr>rr_queue := q\<rparr>) = remaining s"
  by (auto simp: remaining_def split: option.splits)

lemma rr_fill_round_cases:
  assumes "rr_fill_round h n s = Inr (c, n', s')"
  shows "(\<exists>l. rr_nondet_log s = Some l \<and> rr_log_is_empty l \<and> \<not> c \<and> n' = n \<and> s' = s)
       \<or> (\<exists>l e s1. rr_nondet_log s = Some l \<and> \<not> rr_log_is_empty l
             \<and> rr_read_item s = Inr (e, s1) \<and> s' = s1\<lparr>rr_queue := rr_queue s1 @ [e]\<rparr>
             \<and> n' = n + 1 \<and> (c \<longleftrightarrow> \<not> boundary h e \<and> n + 1 \<le> RR_MAX_QUEUE_LEN))"
  using assms
  by (auto simp: rr_fill_round_def boundary_def
        split: option.splits if_splits sum.splits prod.splits)

text \<open>
  The state after the loop of \<^verbatim>\<open>rr_fill_queue\<close>, entered with the count n: the entries
  \<open>es\<close> have been appended to the queue.
\<close>

definition filled :: "rr_log_h \<Rightarrow> nat \<Rightarrow> rr_state \<Rightarrow> rr_state \<Rightarrow> RR_log_entry list \<Rightarrow> bool" where
  "filled h n s s' es =
     (rr_queue s' = rr_queue s @ es
      \<and> (\<forall>e \<in> set (butlast es). \<not> boundary h e)
      \<and> (2 \<le> length es \<longrightarrow> n + length es \<le> RR_MAX_QUEUE_LEN + 1)
      \<and> (case rr_nondet_log s' of
            None \<Rightarrow> False
          | Some l \<Rightarrow>
              rr_log_is_empty l
              \<or> (es \<noteq> [] \<and> (boundary h (last es) \<or> RR_MAX_QUEUE_LEN < n + length es)))
      \<and> rr_prog_point s' = rr_prog_point s
      \<and> panda_current_interrupt_request s' = panda_current_interrupt_request s
      \<and> rr_mode s' = rr_mode s \<and> log_file s' = log_file s
      \<and> rr_log_entry_history s' = rr_log_entry_history s
      \<and> rr_hist_index s' = rr_hist_index s
      \<and> guest_effects s' = guest_effects s
      \<and> remaining s' + 32 * length es \<le> remaining s)"

lemma rr_fill_loop_filled:
  assumes "rr_fill_loop h n s = Inr (m, s')"
  shows "\<exists>es. filled h n s s' es \<and> m = n + length es"
  using assms
proof (induction h n s arbitrary: m s' rule: rr_fill_loop.induct)
  case (1 h n s)
  obtain c n' s1 where rd: "rr_fill_round h n s = Inr (c, n', s1)"
    using "1.prems" by (subst (asm) rr_fill_loop.simps) (auto split: sum.splits)
  show ?case
  proof (cases c)
    case True
    have rec: "rr_fill_loop h n' s1 = Inr (m, s')"
      using "1.prems" rd True by (subst (asm) rr_fill_loop.simps) simp
    obtain es where es: "filled h n' s1 s' es" "m = n' + length es"
      using "1.IH" rd True rec by blast
    obtain l e s0 where e: "rr_nondet_log s = Some l" "rr_read_item s = Inr (e, s0)"
      "s1 = s0\<lparr>rr_queue := rr_queue s0 @ [e]\<rparr>" "n' = n + 1" "\<not> boundary h e"
      "n + 1 \<le> RR_MAX_QUEUE_LEN"
      using rr_fill_round_cases [OF rd] True by auto
    note f = rr_read_item_frame [OF e(2)]
    have r1: "remaining s1 = remaining s0"
      by (simp add: e(3))
    have "filled h n s s' (e # es)"
      using es(1) e f r1
      by (auto simp: filled_def rr_prog_point_def split: option.splits)
    then show ?thesis
      using es(2) e(4) by (intro exI [of _ "e # es"]) simp
  next
    case False
    have res: "m = n'" "s' = s1"
      using "1.prems" rd False by (subst (asm) rr_fill_loop.simps, simp)+
    from rr_fill_round_cases [OF rd] False
    consider (empty) l where "rr_nondet_log s = Some l" "rr_log_is_empty l" "n' = n" "s1 = s"
      | (cut) l e s0 where "rr_nondet_log s = Some l" "rr_read_item s = Inr (e, s0)"
          "s1 = s0\<lparr>rr_queue := rr_queue s0 @ [e]\<rparr>" "n' = n + 1"
          "boundary h e \<or> RR_MAX_QUEUE_LEN < n + 1"
      by (auto simp: not_le)
    then show ?thesis
    proof cases
      case empty
      then have "filled h n s s' []"
        by (simp add: filled_def res)
      then show ?thesis
        using res empty by (intro exI [of _ "[]"]) simp
    next
      case cut
      note f = rr_read_item_frame [OF cut(2)]
      have r1: "remaining s1 = remaining s0"
        by (simp add: cut(3))
      have "filled h n s s' [e]"
        using cut f r1
        by (auto simp: filled_def res rr_prog_point_def split: option.splits)
      then show ?thesis
        using res cut(4) by (intro exI [of _ "[e]"]) simp
    qed
  qed
qed


lemma remaining_max [simp]:
  "remaining (s\<lparr>rr_max_num_queue_entries := m\<rparr>) = remaining s"
  by (auto simp: remaining_def split: option.splits)

lemma rr_fill_queue_filled:
  assumes "rr_fill_queue h s = Inr s'"
  shows "rr_queue s = []" "\<exists>es. filled h 0 s s' es"
proof -
  show q: "rr_queue s = []"
    using assms by (auto simp: rr_fill_queue_def split: if_splits)
  obtain m s1 where l: "rr_fill_loop h 0 s = Inr (m, s1)"
    and s': "s' = (if rr_max_num_queue_entries s1 < m
                   then s1\<lparr>rr_max_num_queue_entries := m\<rparr> else s1)"
    using assms q by (auto simp: rr_fill_queue_def rr_bind_def split: sum.splits)
  obtain es where es: "filled h 0 s s1 es"
    using rr_fill_loop_filled [OF l] by blast
  have "filled h 0 s (s1\<lparr>rr_max_num_queue_entries := m\<rparr>) es"
    using es by (simp add: filled_def rr_prog_point_def)
  then have "filled h 0 s s' es"
    using es by (cases "rr_max_num_queue_entries s1 < m") (simp_all add: s')
  then show "\<exists>es. filled h 0 s s' es" by blast
qed

text \<open>
  The states of an execution of the loop of \<^verbatim>\<open>rr_fill_queue\<close> started in \<open>s0\<close>: the
  state at its start and the state after each of its rounds, with the count and with
  whether the loop goes on from there.
\<close>

inductive fill_visits :: "rr_log_h \<Rightarrow> rr_state \<Rightarrow> bool \<times> nat \<times> rr_state \<Rightarrow> bool"
  for h :: rr_log_h and s0 :: rr_state where
  start: "fill_visits h s0 (True, 0, s0)"
| round: "fill_visits h s0 (True, n, s) \<Longrightarrow> rr_fill_round h n s = Inr (c, n', s')
            \<Longrightarrow> fill_visits h s0 (c, n', s')"

lemma fill_visits_bound:
  assumes "fill_visits h s0 x" "rr_queue s0 = []"
  shows "length (rr_queue (snd (snd x))) = fst (snd x)
       \<and> fst (snd x) \<le> RR_MAX_QUEUE_LEN + 1
       \<and> (fst x \<longrightarrow> fst (snd x) \<le> RR_MAX_QUEUE_LEN)"
  using assms
proof (induction rule: fill_visits.induct)
  case start
  then show ?case by simp
next
  case (round n s c n' s')
  from rr_fill_round_cases [OF round.hyps(2)] show ?case
  proof (elim disjE exE conjE)
    fix l
    assume "n' = n" "s' = s" "\<not> c"
    then show ?thesis using round.IH round.prems by simp
  next
    fix l e s1
    assume a: "rr_read_item s = Inr (e, s1)" "s' = s1\<lparr>rr_queue := rr_queue s1 @ [e]\<rparr>"
      "n' = n + 1" "c = (\<not> boundary h e \<and> n + 1 \<le> RR_MAX_QUEUE_LEN)"
    show ?thesis
      using round.IH round.prems a rr_read_item_frame(1) [OF a(1)] by simp
  qed
qed

lemma rr_fill_loop_visits:
  assumes "rr_fill_loop h n s = Inr (m, s')" "fill_visits h s0 (True, n, s)"
  shows "fill_visits h s0 (False, m, s')"
  using assms
proof (induction h n s arbitrary: m s' rule: rr_fill_loop.induct)
  case (1 h n s)
  obtain c n' s1 where rd: "rr_fill_round h n s = Inr (c, n', s1)"
    using "1.prems"(1) by (subst (asm) rr_fill_loop.simps) (auto split: sum.splits)
  have v: "fill_visits h s0 (c, n', s1)"
    using fill_visits.round [OF "1.prems"(2) rd] .
  show ?case
  proof (cases c)
    case True
    have rec: "rr_fill_loop h n' s1 = Inr (m, s')"
      using "1.prems"(1) rd True by (subst (asm) rr_fill_loop.simps) simp
    have v': "fill_visits h s0 (True, n', s1)" using v True by simp
    show ?thesis by (rule "1.IH" [OF rd refl refl True rec v'])
  next
    case False
    have res: "m = n'" "s' = s1"
      using "1.prems"(1) rd False by (subst (asm) rr_fill_loop.simps, simp)+
    show ?thesis using v False res by simp
  qed
qed

lemma boundary_decoded [simp]: "boundary h (decoded pos e) = boundary h e"
  by (simp add: boundary_def decoded_def entry_kind_def)

lemma replaying_queue [simp]: "replaying (s\<lparr>rr_queue := q\<rparr>) bs = replaying s bs"
  by (auto simp: replaying_def rr_in_replay_def split: option.splits)

lemma log_pos_queue [simp]: "log_pos (s\<lparr>rr_queue := q\<rparr>) = log_pos s"
  by (simp add: log_pos_def)

lemma rr_fill_round_replaying:
  assumes "replaying s (item_bytes e @ rest)" "variant_writable (variant e)"
  shows "rr_fill_round h n s =
           Inr (\<not> boundary h e \<and> n + 1 \<le> RR_MAX_QUEUE_LEN, n + 1,
                (after_read e s)\<lparr>rr_queue := rr_queue s @ [decoded (log_pos s) e]\<rparr>)"
proof -
  obtain l where l: "rr_nondet_log s = Some l"
    using assms(1) by (auto simp: replaying_def split: option.splits)
  have "length (item_bytes e @ rest) \<noteq> 0"
    by (simp add: length_item_bytes)
  then have "item_bytes e @ rest \<noteq> []"
    by (simp only: length_0_conv not_False_eq_True)
  then have ne: "\<not> rr_log_is_empty l"
    using replaying_empty [OF assms(1) l] by simp
  show ?thesis
    using l ne rr_read_item_replaying(1) [OF assms]
    by (auto simp: rr_fill_round_def boundary_def decoded_def entry_kind_def)
qed

lemma rr_fill_round_replaying_empty:
  assumes "replaying s []"
  shows "rr_fill_round h n s = Inr (False, n, s)"
proof -
  obtain l where l: "rr_nondet_log s = Some l"
    using assms(1) by (auto simp: replaying_def split: option.splits)
  show ?thesis
    using l replaying_empty [OF assms l] by (simp add: rr_fill_round_def)
qed

text \<open>How many of the entries ahead in the file the loop takes, entered with the count n.\<close>

fun fill_count :: "rr_log_h \<Rightarrow> nat \<Rightarrow> RR_log_entry list \<Rightarrow> nat" where
  "fill_count h n [] = 0"
| "fill_count h n (e # es) =
     (if boundary h e \<or> RR_MAX_QUEUE_LEN < n + 1 then 1 else 1 + fill_count h (n + 1) es)"

lemma rr_fill_loop_replaying:
  assumes "replaying s (concat (map item_bytes es))"
    "\<forall>e \<in> set es. variant_writable (variant e)"
  shows "\<exists>s'. rr_fill_loop h n s = Inr (n + fill_count h n es, s')
           \<and> rr_queue s' = rr_queue s @ decoded_from (log_pos s) (take (fill_count h n es) es)
           \<and> replaying s' (concat (map item_bytes (drop (fill_count h n es) es)))"
  using assms
proof (induction es arbitrary: n s)
  case Nil
  then show ?case
    by (subst rr_fill_loop.simps) (simp add: rr_fill_round_replaying_empty)
next
  case (Cons e es)
  have r: "replaying s (item_bytes e @ concat (map item_bytes es))"
    using Cons.prems(1) by simp
  have w: "variant_writable (variant e)" using Cons.prems(2) by simp
  let ?s1 = "(after_read e s)\<lparr>rr_queue := rr_queue s @ [decoded (log_pos s) e]\<rparr>"
  note rd = rr_fill_round_replaying [OF r w, of h n]
  note step = rr_read_item_replaying [OF r w]
  have r1: "replaying ?s1 (concat (map item_bytes es))"
    using step(2) by simp
  show ?case
  proof (cases "boundary h e \<or> RR_MAX_QUEUE_LEN < n + 1")
    case True
    then have "rr_fill_loop h n s = Inr (n + 1, ?s1)"
      by (subst rr_fill_loop.simps) (auto simp: rd)
    then show ?thesis
      using True r1 by auto
  next
    case False
    then have u: "rr_fill_loop h n s = rr_fill_loop h (n + 1) ?s1"
      by (subst rr_fill_loop.simps) (auto simp: rd)
    obtain s' where s': "rr_fill_loop h (n + 1) ?s1
                           = Inr (n + 1 + fill_count h (n + 1) es, s')"
      "rr_queue s' = rr_queue ?s1
         @ decoded_from (log_pos ?s1) (take (fill_count h (n + 1) es) es)"
      "replaying s' (concat (map item_bytes (drop (fill_count h (n + 1) es) es)))"
      using Cons.IH [OF r1, of "n + 1"] Cons.prems(2) by auto
    show ?thesis
      using False u s' step(3) by auto
  qed
qed


lemma decoded_fields [simp]:
  "entry_kind (decoded pos e) = entry_kind e"
  "callsite_loc (decoded pos e) = callsite_loc e"
  "prog_point (decoded pos e) = prog_point e"
  "variant (decoded pos e) = cut_variant (variant e)"
  "file_pos (decoded pos e) = pos"
  by (simp_all add: decoded_def entry_kind_def)

lemma rr_fill_queue_replaying:
  assumes "replaying s (concat (map item_bytes es))"
    "\<forall>e \<in> set es. variant_writable (variant e)" "rr_queue s = []"
  shows "\<exists>s'. rr_fill_queue h s = Inr s'
           \<and> rr_queue s' = decoded_from (log_pos s) (take (fill_count h 0 es) es)
           \<and> replaying s' (concat (map item_bytes (drop (fill_count h 0 es) es)))"
proof -
  obtain s1 where s1: "rr_fill_loop h 0 s = Inr (0 + fill_count h 0 es, s1)"
    "rr_queue s1 = rr_queue s @ decoded_from (log_pos s) (take (fill_count h 0 es) es)"
    "replaying s1 (concat (map item_bytes (drop (fill_count h 0 es) es)))"
    using rr_fill_loop_replaying [OF assms(1,2), of h 0] by blast
  have m: "replaying (s1\<lparr>rr_max_num_queue_entries := k\<rparr>) bs = replaying s1 bs" for k bs
    by (auto simp: replaying_def rr_in_replay_def split: option.splits)
  show ?thesis
    using s1 assms(3) by (auto simp: rr_fill_queue_def m)
qed

text \<open>
  C3 (queue cutoff). \<^verbatim>\<open>rr_fill_queue\<close> is entered with the queue empty (its assertion).
  In every state of an execution of its loop, whether the execution returns or aborts
  later, the queue holds as many entries as the loop has counted, at most
  RR_MAX_QUEUE_LEN + 1 = 65537. When the function returns, the log is empty, or the entry
  appended last is an RR_INTERRUPT_REQUEST or an RR_SKIPPED_CALL from
  RR_CALLSITE_MAIN_LOOP_WAIT, or the queue holds more than RR_MAX_QUEUE_LEN entries; and
  the loop has not gone past such a point before: no entry but the last is one of these
  two kinds, and the state returned is the state after the last round of the loop.
\<close>

theorem fill_queue_cutoff:
  assumes "rr_queue s0 = []"
  shows "(\<forall>c n s. fill_visits h s0 (c, n, s)
            \<longrightarrow> length (rr_queue s) = n \<and> n \<le> RR_MAX_QUEUE_LEN + 1)
       \<and> RR_MAX_QUEUE_LEN + 1 = 65537
       \<and> (\<forall>m s'. rr_fill_loop h 0 s0 = Inr (m, s') \<longrightarrow> fill_visits h s0 (False, m, s'))
       \<and> (\<forall>s'. rr_fill_queue h s0 = Inr s'
            \<longrightarrow> length (rr_queue s') \<le> RR_MAX_QUEUE_LEN + 1
              \<and> (\<forall>e \<in> set (butlast (rr_queue s')). \<not> boundary h e)
              \<and> (\<exists>l. rr_nondet_log s' = Some l
                    \<and> (rr_log_is_empty l
                       \<or> (rr_queue s' \<noteq> []
                           \<and> (boundary h (last (rr_queue s'))
                              \<or> RR_MAX_QUEUE_LEN < length (rr_queue s'))))))"
proof (intro conjI allI impI)
  fix c n s
  assume "fill_visits h s0 (c, n, s)"
  from fill_visits_bound [OF this assms]
  show "length (rr_queue s) = n" "n \<le> RR_MAX_QUEUE_LEN + 1" by simp_all
next
  show "RR_MAX_QUEUE_LEN + 1 = 65537" by (simp add: RR_MAX_QUEUE_LEN_def)
next
  fix m s'
  assume "rr_fill_loop h 0 s0 = Inr (m, s')"
  then show "fill_visits h s0 (False, m, s')"
    by (rule rr_fill_loop_visits) (rule fill_visits.start)
next
  fix s'
  assume a: "rr_fill_queue h s0 = Inr s'"
  obtain es where es: "filled h 0 s0 s' es"
    using rr_fill_queue_filled(2) [OF a] by blast
  have q: "rr_queue s' = es"
    using es assms by (simp add: filled_def)
  have "length es \<le> RR_MAX_QUEUE_LEN + 1"
    using es by (cases "2 \<le> length es") (simp_all add: filled_def)
  then show "length (rr_queue s') \<le> RR_MAX_QUEUE_LEN + 1" by (simp add: q)
  show "\<forall>e \<in> set (butlast (rr_queue s')). \<not> boundary h e"
    using es by (simp add: q filled_def)
  show "\<exists>l. rr_nondet_log s' = Some l
          \<and> (rr_log_is_empty l
             \<or> (rr_queue s' \<noteq> []
                 \<and> (boundary h (last (rr_queue s'))
                    \<or> RR_MAX_QUEUE_LEN < length (rr_queue s'))))"
    using es by (auto simp: q filled_def split: option.splits)
qed

text \<open>The state in which replay reads a file from behind its header, the queue empty.\<close>

definition replay_from :: "byte list \<Rightarrow> rr_state" where
  "replay_from file =
     (rr_initial_state file)
       \<lparr>rr_mode := RR_REPLAY,
        rr_nondet_log :=
          Some \<lparr>log_type = REPLAY, fp = Some 24, last_prog_point = prog_point_of_bytes file,
                bytes_read = 24, log_size = length file, item_number = 0,
                current_item = zero_entry\<rparr>\<rparr>"

lemma replaying_replay_from:
  "replaying (replay_from (prog_point_bytes pp @ bs)) bs"
  by (simp add: replaying_def replay_from_def rr_in_replay_def rr_initial_state_def)

lemma replay_from_fields [simp]:
  "rr_queue (replay_from file) = []" "log_pos (replay_from file) = 24"
  "panda_current_interrupt_request (replay_from file) = 0"
  "rr_prog_point (replay_from file) = zero_prog_point"
  "recycle_list (replay_from file) = []"
  by (simp_all add: replay_from_def rr_initial_state_def log_pos_def rr_prog_point_def
        zero_prog_point_def)

theorem fill_queue_cutoff_witness:
  "rr_queue (replay_from (prog_point_bytes (pp_of 7)
       @ concat (map item_bytes
           [entry_at (pp_of 5) 1 (Input_1 0x42), entry_at (pp_of 6) 2 (Interrupt_request 1),
            entry_at (pp_of 7) 1 (Input_1 0x43)]))) = []
   \<and> (\<exists>s'. rr_fill_queue rr_log_h_model
          (replay_from (prog_point_bytes (pp_of 7)
             @ concat (map item_bytes
                 [entry_at (pp_of 5) 1 (Input_1 0x42), entry_at (pp_of 6) 2 (Interrupt_request 1),
                  entry_at (pp_of 7) 1 (Input_1 0x43)]))) = Inr s'
        \<and> map variant (rr_queue s') = [Input_1 0x42, Interrupt_request 1]
        \<and> length (rr_queue s') \<le> RR_MAX_QUEUE_LEN + 1
        \<and> boundary rr_log_h_model (last (rr_queue s')))"
proof -
  let ?es = "[entry_at (pp_of 5) 1 (Input_1 0x42), entry_at (pp_of 6) 2 (Interrupt_request 1),
            entry_at (pp_of 7) 1 (Input_1 0x43)]"
  let ?s = "replay_from (prog_point_bytes (pp_of 7) @ concat (map item_bytes ?es))"
  have q: "rr_queue ?s = []" by simp
  have c: "fill_count rr_log_h_model 0 ?es = 2"
    by (simp add: boundary_def RR_MAX_QUEUE_LEN_def)
  have w: "\<forall>e \<in> set ?es. variant_writable (variant e)" by simp
  obtain s' where s': "rr_fill_queue rr_log_h_model ?s = Inr s'"
    "rr_queue s' = decoded_from (log_pos ?s) (take (fill_count rr_log_h_model 0 ?es) ?es)"
    using rr_fill_queue_replaying
            [where h = rr_log_h_model and es = ?es, OF replaying_replay_from w q]
    by blast
  have v: "map variant (rr_queue s') = [Input_1 0x42, Interrupt_request 1]"
    by (simp only: s'(2) c) simp
  have b: "boundary rr_log_h_model (last (rr_queue s'))"
    by (simp only: s'(2) c) (simp add: boundary_def)
  have len: "length (rr_queue s') \<le> RR_MAX_QUEUE_LEN + 1"
    by (rule fill_queue_cutoff [OF q, of rr_log_h_model, THEN conjunct2, THEN conjunct2,
          THEN conjunct2, rule_format, OF s'(1), THEN conjunct1])
  show ?thesis
    by (intro conjI exI) (rule q s'(1) v b len)+
qed


section \<open>Taking the next entry\<close>

text \<open>The queue after the loop of \<^verbatim>\<open>get_next_entry\<close> over leading RR_DEBUG entries.\<close>

definition skipped :: "RR_log_entry_kind \<Rightarrow> RR_log_entry list \<Rightarrow> RR_log_entry list" where
  "skipped kind q =
     (if kind = RR_INTERRUPT_REQUEST then q
      else if kind = RR_SKIPPED_CALL then q
      else dropWhile (\<lambda>e. entry_kind e = RR_DEBUG) q)"

lemma rr_prog_point_queue [simp]: "rr_prog_point (s\<lparr>rr_queue := q\<rparr>) = rr_prog_point s"
  by (simp add: rr_prog_point_def)

lemma get_next_entry_unfold:
  "get_next_entry h kind call_site check_callsite s =
     rr_bind (if rr_queue s = [] then rr_fill_queue h s else Inr s) (\<lambda>s1.
       if rr_queue s1 = [] then Inr (None, s1)
       else
         (case skipped kind (rr_queue s1) of
            [] \<Rightarrow> Inl Null_pointer
          | head # rest \<Rightarrow>
              rr_bind
                (if guest_instr_count (prog_point head) = 0 then Inr 0
                 else rr_prog_point_compare h (rr_prog_point s1) (prog_point head) kind)
                (\<lambda>c. if c = 0 \<and> entry_kind head = kind
                          \<and> (callsite_loc head = call_site \<or> \<not> check_callsite)
                       then Inr (Some head, s1\<lparr>rr_queue := rest\<rparr>)
                       else Inr (None, s1\<lparr>rr_queue := head # rest\<rparr>))))"
proof -
  have "kind = RR_INTERRUPT_REQUEST \<or> kind = RR_SKIPPED_CALL
        \<or> (kind \<noteq> RR_INTERRUPT_REQUEST \<and> kind \<noteq> RR_SKIPPED_CALL)"
    by blast
  then show ?thesis
  proof (elim disjE)
    assume k: "kind = RR_INTERRUPT_REQUEST"
    show ?thesis
      unfolding get_next_entry_def skipped_def Let_def k
      by (intro arg_cong2 [where f = rr_bind] refl ext)
         (auto split: list.splits intro!: arg_cong2 [where f = rr_bind] ext)
  next
    assume k: "kind = RR_SKIPPED_CALL"
    show ?thesis
      unfolding get_next_entry_def skipped_def Let_def k
      by (intro arg_cong2 [where f = rr_bind] refl ext)
         (auto split: list.splits intro!: arg_cong2 [where f = rr_bind] ext)
  next
    assume k: "kind \<noteq> RR_INTERRUPT_REQUEST \<and> kind \<noteq> RR_SKIPPED_CALL"
    have "(if rr_queue s1 = [] then Inr (None, s1)
           else
             (let s2 = (if kind = RR_INTERRUPT_REQUEST then s1
                        else if kind = RR_SKIPPED_CALL then s1
                        else s1\<lparr>rr_queue :=
                               dropWhile (\<lambda>e. entry_kind e = RR_DEBUG) (rr_queue s1)\<rparr>)
              in case rr_queue s2 of
                   [] \<Rightarrow> Inl Null_pointer
                 | head # rest \<Rightarrow>
                     rr_bind
                       (if guest_instr_count (prog_point head) = 0 then Inr 0
                        else rr_prog_point_compare h (rr_prog_point s2) (prog_point head) kind)
                       (\<lambda>c.
                          if c = 0 then
                            if entry_kind head = kind then
                              if check_callsite \<and> callsite_loc head \<noteq> call_site
                              then Inr (None, s2)
                              else Inr (Some head, s2\<lparr>rr_queue := rest\<rparr>)
                            else Inr (None, s2)
                          else Inr (None, s2))))
         = (if rr_queue s1 = [] then Inr (None, s1)
       else
         (case skipped kind (rr_queue s1) of
            [] \<Rightarrow> Inl Null_pointer
          | head # rest \<Rightarrow>
              rr_bind
                (if guest_instr_count (prog_point head) = 0 then Inr 0
                 else rr_prog_point_compare h (rr_prog_point s1) (prog_point head) kind)
                (\<lambda>c. if c = 0 \<and> entry_kind head = kind
                          \<and> (callsite_loc head = call_site \<or> \<not> check_callsite)
                       then Inr (Some head, s1\<lparr>rr_queue := rest\<rparr>)
                       else Inr (None, s1\<lparr>rr_queue := head # rest\<rparr>))))" for s1
    proof -
      define q where "q = dropWhile (\<lambda>e. entry_kind e = RR_DEBUG) (rr_queue s1)"
      show ?thesis
        unfolding skipped_def Let_def q_def [symmetric]
        using k
        by (cases q) (auto intro!: arg_cong2 [where f = rr_bind] ext)
    qed
    then show ?thesis
      unfolding get_next_entry_def by simp
  qed
qed


text \<open>
  The head of the queue is due for a request: its program point equals the current one
  under \<^verbatim>\<open>rr_prog_point_compare\<close> or its guest instruction count is 0, its kind is the
  requested kind, and its call site is the requested one when that is to be checked.
\<close>

definition due ::
  "rr_log_h \<Rightarrow> RR_prog_point \<Rightarrow> RR_log_entry_kind \<Rightarrow> 32 word \<Rightarrow> bool \<Rightarrow> RR_log_entry \<Rightarrow> bool" where
  "due h now kind call_site check_callsite head =
     ((guest_instr_count (prog_point head) = 0
       \<or> rr_prog_point_compare h now (prog_point head) kind = Inr 0)
      \<and> entry_kind head = kind
      \<and> (callsite_loc head = call_site \<or> \<not> check_callsite))"

lemma get_next_entry_result:
  assumes "get_next_entry h kind call_site check_callsite s = Inr (r, s')"
  shows "\<exists>s1. (rr_queue s \<noteq> [] \<and> s1 = s \<or> rr_queue s = [] \<and> rr_fill_queue h s = Inr s1)
           \<and> (rr_queue s1 = [] \<and> r = None \<and> s' = s1
              \<or> (\<exists>head rest. rr_queue s1 \<noteq> [] \<and> skipped kind (rr_queue s1) = head # rest
                    \<and> (due h (rr_prog_point s1) kind call_site check_callsite head
                          \<and> r = Some head \<and> s' = s1\<lparr>rr_queue := rest\<rparr>
                        \<or> \<not> due h (rr_prog_point s1) kind call_site check_callsite head
                          \<and> r = None \<and> s' = s1\<lparr>rr_queue := head # rest\<rparr>)))"
proof -
  obtain s1 where s1: "(if rr_queue s = [] then rr_fill_queue h s else Inr s) = Inr s1"
    using assms
    by (cases "if rr_queue s = [] then rr_fill_queue h s else Inr s")
       (simp_all add: get_next_entry_unfold)
  have a: "rr_queue s \<noteq> [] \<and> s1 = s \<or> rr_queue s = [] \<and> rr_fill_queue h s = Inr s1"
    using s1 by (cases "rr_queue s = []") simp_all
  have body: "(if rr_queue s1 = [] then Inr (None, s1)
       else
         (case skipped kind (rr_queue s1) of
            [] \<Rightarrow> Inl Null_pointer
          | head # rest \<Rightarrow>
              rr_bind
                (if guest_instr_count (prog_point head) = 0 then Inr 0
                 else rr_prog_point_compare h (rr_prog_point s1) (prog_point head) kind)
                (\<lambda>c. if c = 0 \<and> entry_kind head = kind
                          \<and> (callsite_loc head = call_site \<or> \<not> check_callsite)
                       then Inr (Some head, s1\<lparr>rr_queue := rest\<rparr>)
                       else Inr (None, s1\<lparr>rr_queue := head # rest\<rparr>)))) = Inr (r, s')"
    using assms by (simp add: get_next_entry_unfold s1)
  show ?thesis
  proof (cases "rr_queue s1 = []")
    case True
    then show ?thesis using a body by auto
  next
    case False
    obtain head rest where hr: "skipped kind (rr_queue s1) = head # rest"
      using body False by (cases "skipped kind (rr_queue s1)") simp_all
    have b2: "rr_bind
                (if guest_instr_count (prog_point head) = 0 then Inr 0
                 else rr_prog_point_compare h (rr_prog_point s1) (prog_point head) kind)
                (\<lambda>c. if c = 0 \<and> entry_kind head = kind
                          \<and> (callsite_loc head = call_site \<or> \<not> check_callsite)
                       then Inr (Some head, s1\<lparr>rr_queue := rest\<rparr>)
                       else Inr (None, s1\<lparr>rr_queue := head # rest\<rparr>)) = Inr (r, s')"
      using body False by (simp add: hr)
    have "due h (rr_prog_point s1) kind call_site check_callsite head
            \<and> r = Some head \<and> s' = s1\<lparr>rr_queue := rest\<rparr>
          \<or> \<not> due h (rr_prog_point s1) kind call_site check_callsite head
            \<and> r = None \<and> s' = s1\<lparr>rr_queue := head # rest\<rparr>"
    proof (cases "guest_instr_count (prog_point head) = 0")
      case True
      then show ?thesis using b2 by (auto simp: due_def split: if_splits)
    next
      case nz: False
      then obtain c where c: "rr_prog_point_compare h (rr_prog_point s1) (prog_point head) kind
                                = Inr c"
        using b2
        by (cases "rr_prog_point_compare h (rr_prog_point s1) (prog_point head) kind")
           simp_all
      show ?thesis using b2 nz c by (auto simp: due_def split: if_splits)
    qed
    then show ?thesis using a False hr by blast
  qed
qed

text \<open>
  Modelled from the spec: the total order of program points of section 3 of the
  specification, lexicographic on the instruction count, the program counter and the
  secondary value.
\<close>

definition prog_point_less :: "RR_prog_point \<Rightarrow> RR_prog_point \<Rightarrow> bool" where
  "prog_point_less a b =
     (guest_instr_count a < guest_instr_count b
      \<or> (guest_instr_count a = guest_instr_count b
          \<and> (pc a < pc b \<or> (pc a = pc b \<and> secondary a < secondary b))))"

text \<open>
  C4 (point matching), as the code has it. Let the queue be filled first when it is
  empty, and let the head be the head after the leading RR_DEBUG entries are dropped
  (for a kind other than RR_INTERRUPT_REQUEST and RR_SKIPPED_CALL). When
  \<^verbatim>\<open>get_next_entry\<close> returns an entry, the entry is that head, it is unlinked, and it is
  due: its program point equals the current one under \<^verbatim>\<open>rr_prog_point_compare\<close> or its
  instruction count is 0, its kind is the requested one and, when the call site is
  checked, its call site is the requested one. When it returns none, the head is left
  in place and is not due (or there is no entry at all). The grace for an instruction
  count of 0 holds whatever the current program point is.
\<close>

theorem get_next_entry_policy:
  assumes "get_next_entry h kind call_site check_callsite s = Inr (r, s')"
  shows "\<exists>s1. (rr_queue s \<noteq> [] \<and> s1 = s \<or> rr_queue s = [] \<and> rr_fill_queue h s = Inr s1)
           \<and> (case r of
                 Some e \<Rightarrow>
                   due h (rr_prog_point s1) kind call_site check_callsite e
                   \<and> skipped kind (rr_queue s1) = e # rr_queue s'
               | None \<Rightarrow>
                   rr_queue s' = skipped kind (rr_queue s1)
                   \<and> (\<forall>head rest. rr_queue s' = head # rest
                         \<longrightarrow> \<not> due h (rr_prog_point s1) kind call_site check_callsite head))"
proof -
  obtain s1 where s1:
    "rr_queue s \<noteq> [] \<and> s1 = s \<or> rr_queue s = [] \<and> rr_fill_queue h s = Inr s1"
    "rr_queue s1 = [] \<and> r = None \<and> s' = s1
     \<or> (\<exists>head rest. rr_queue s1 \<noteq> [] \<and> skipped kind (rr_queue s1) = head # rest
           \<and> (due h (rr_prog_point s1) kind call_site check_callsite head
                 \<and> r = Some head \<and> s' = s1\<lparr>rr_queue := rest\<rparr>
               \<or> \<not> due h (rr_prog_point s1) kind call_site check_callsite head
                 \<and> r = None \<and> s' = s1\<lparr>rr_queue := head # rest\<rparr>))"
    using get_next_entry_result [OF assms] by blast
  have "case r of
          Some e \<Rightarrow>
            due h (rr_prog_point s1) kind call_site check_callsite e
            \<and> skipped kind (rr_queue s1) = e # rr_queue s'
        | None \<Rightarrow>
            rr_queue s' = skipped kind (rr_queue s1)
            \<and> (\<forall>head rest. rr_queue s' = head # rest
                  \<longrightarrow> \<not> due h (rr_prog_point s1) kind call_site check_callsite head)"
    using s1(2) by (auto simp: skipped_def)
  then show ?thesis using s1(1) by blast
qed

definition input_at :: "RR_prog_point \<Rightarrow> RR_prog_point \<Rightarrow> rr_state" where
  "input_at now pp =
     guest_at now ((replay_from [])\<lparr>rr_queue := [entry_at pp 1 (Input_1 0x42)]\<rparr>)"

lemma guest_at_queue [simp]: "rr_queue (guest_at pp s) = rr_queue s"
  by (simp add: guest_at_def)

lemma get_next_entry_input_at:
  assumes "due rr_log_h_model now RR_INPUT_1 1 False (entry_at pp 1 (Input_1 0x42))"
  shows "get_next_entry rr_log_h_model RR_INPUT_1 1 False (input_at now pp)
           = Inr (Some (entry_at pp 1 (Input_1 0x42)), (input_at now pp)\<lparr>rr_queue := []\<rparr>)"
  using assms
  by (auto simp: get_next_entry_unfold input_at_def skipped_def due_def)

theorem get_next_entry_policy_witness:
  "get_next_entry rr_log_h_model RR_INPUT_1 1 False (input_at (pp_of 10) (pp_of 10))
     = Inr (Some (entry_at (pp_of 10) 1 (Input_1 0x42)),
            (input_at (pp_of 10) (pp_of 10))\<lparr>rr_queue := []\<rparr>)
   \<and> (\<exists>s1. due rr_log_h_model (rr_prog_point s1) RR_INPUT_1 1 False
               (entry_at (pp_of 10) 1 (Input_1 0x42)))"
proof -
  have d: "due rr_log_h_model (pp_of 10) RR_INPUT_1 1 False (entry_at (pp_of 10) 1 (Input_1 0x42))"
    by (simp add: due_def rr_log_h_model_def rr_prog_point_compare_model_def pp_of_def)
  note e = get_next_entry_input_at [OF d]
  obtain s1 where "case Some (entry_at (pp_of 10) 1 (Input_1 0x42)) of
                 Some e \<Rightarrow>
                   due rr_log_h_model (rr_prog_point s1) RR_INPUT_1 1 False e
                   \<and> skipped RR_INPUT_1 (rr_queue s1)
                       = e # rr_queue ((input_at (pp_of 10) (pp_of 10))\<lparr>rr_queue := []\<rparr>)
               | None \<Rightarrow>
                   rr_queue ((input_at (pp_of 10) (pp_of 10))\<lparr>rr_queue := []\<rparr>)
                     = skipped RR_INPUT_1 (rr_queue s1)
                   \<and> (\<forall>head rest. rr_queue ((input_at (pp_of 10) (pp_of 10))\<lparr>rr_queue := []\<rparr>) = head # rest
                         \<longrightarrow> \<not> due rr_log_h_model (rr_prog_point s1) RR_INPUT_1 1 False head)"
    using get_next_entry_policy [OF e] by blast
  then have "due rr_log_h_model (rr_prog_point s1) RR_INPUT_1 1 False
               (entry_at (pp_of 10) 1 (Input_1 0x42))"
    by simp
  then have "\<exists>s1. due rr_log_h_model (rr_prog_point s1) RR_INPUT_1 1 False
               (entry_at (pp_of 10) 1 (Input_1 0x42))" by (rule exI)
  then show ?thesis using e by (rule conjI [rotated])
qed

text \<open>
  The claim as stated fails at the start of the log: the head is an RR_INPUT_1 entry at
  the program point (0, 5, 0), the guest is at (0, 3, 0). The head's program point is
  strictly greater than the current one, and the entry is returned.
\<close>

theorem get_next_entry_grace_counterexample:
  "get_next_entry rr_log_h_model RR_INPUT_1 1 False
     (input_at \<lparr>guest_instr_count = 0, pc = 3, secondary = 0\<rparr>
               \<lparr>guest_instr_count = 0, pc = 5, secondary = 0\<rparr>)
     = Inr (Some (entry_at \<lparr>guest_instr_count = 0, pc = 5, secondary = 0\<rparr> 1 (Input_1 0x42)),
            (input_at \<lparr>guest_instr_count = 0, pc = 3, secondary = 0\<rparr>
                      \<lparr>guest_instr_count = 0, pc = 5, secondary = 0\<rparr>)\<lparr>rr_queue := []\<rparr>)
   \<and> prog_point_less
       (rr_prog_point (input_at \<lparr>guest_instr_count = 0, pc = 3, secondary = 0\<rparr>
                                \<lparr>guest_instr_count = 0, pc = 5, secondary = 0\<rparr>))
       (prog_point (entry_at \<lparr>guest_instr_count = 0, pc = 5, secondary = 0\<rparr> 1 (Input_1 0x42)))"
proof -
  have d: "due rr_log_h_model \<lparr>guest_instr_count = 0, pc = 3, secondary = 0\<rparr> RR_INPUT_1 1 False
             (entry_at \<lparr>guest_instr_count = 0, pc = 5, secondary = 0\<rparr> 1 (Input_1 0x42))"
    by (simp add: due_def)
  have l: "prog_point_less
       (rr_prog_point (input_at \<lparr>guest_instr_count = 0, pc = 3, secondary = 0\<rparr>
                                \<lparr>guest_instr_count = 0, pc = 5, secondary = 0\<rparr>))
       (prog_point (entry_at \<lparr>guest_instr_count = 0, pc = 5, secondary = 0\<rparr> 1 (Input_1 0x42)))"
    by (simp add: prog_point_less_def input_at_def)
  show ?thesis
    using get_next_entry_input_at [OF d] l by (rule conjI)
qed


text \<open>
  A replay state whose queue holds an RR_DEBUG entry and then an RR_INPUT_1 entry, both
  recorded at the program point the guest is at.
\<close>

definition debug_then_input :: rr_state where
  "debug_then_input =
     guest_at (pp_of 5)
       ((replay_from [])
          \<lparr>rr_queue := [entry_at (pp_of 5) 1 Debug, entry_at (pp_of 5) 1 (Input_1 0x42)]\<rparr>)"

text \<open>
  C9 (DEBUG skipping). Asked for an RR_INPUT_1 entry in that state, \<^verbatim>\<open>get_next_entry\<close>
  returns the input entry and leaves the queue empty: the RR_DEBUG entry is gone from the
  queue, while the recycle list (empty before) and the history are as they were.
  \<^verbatim>\<open>rr_replay_debug\<close>, in the same state, unlinks the same entry and passes it to
  \<^verbatim>\<open>add_to_recycle_list\<close>.
\<close>

theorem get_next_entry_drops_debug_entries:
  "get_next_entry rr_log_h_model RR_INPUT_1 1 False debug_then_input
     = Inr (Some (entry_at (pp_of 5) 1 (Input_1 0x42)), debug_then_input\<lparr>rr_queue := []\<rparr>)
   \<and> recycle_list (debug_then_input\<lparr>rr_queue := []\<rparr>) = []
   \<and> rr_log_entry_history (debug_then_input\<lparr>rr_queue := []\<rparr>)
       = rr_log_entry_history debug_then_input
   \<and> rr_replay_debug 1 debug_then_input
       = add_to_recycle_list (entry_at (pp_of 5) 1 Debug)
           (debug_then_input\<lparr>rr_queue := [entry_at (pp_of 5) 1 (Input_1 0x42)]\<rparr>)
   \<and> recycle_list (rr_replay_debug 1 debug_then_input) = [entry_at (pp_of 5) 1 Debug]"
proof -
  have g: "get_next_entry rr_log_h_model RR_INPUT_1 1 False debug_then_input
     = Inr (Some (entry_at (pp_of 5) 1 (Input_1 0x42)), debug_then_input\<lparr>rr_queue := []\<rparr>)"
    by (simp add: get_next_entry_unfold debug_then_input_def skipped_def rr_log_h_model_def
          rr_prog_point_compare_model_def pp_of_def)
  have r: "recycle_list (debug_then_input\<lparr>rr_queue := []\<rparr>) = []"
    by (simp add: debug_then_input_def guest_at_def)
  have h: "rr_log_entry_history (debug_then_input\<lparr>rr_queue := []\<rparr>)
       = rr_log_entry_history debug_then_input"
    by simp
  have d: "rr_replay_debug 1 debug_then_input
       = add_to_recycle_list (entry_at (pp_of 5) 1 Debug)
           (debug_then_input\<lparr>rr_queue := [entry_at (pp_of 5) 1 (Input_1 0x42)]\<rparr>)"
    by (simp add: rr_replay_debug_def debug_then_input_def unlink_head_def)
  have l: "recycle_list (rr_replay_debug 1 debug_then_input) = [entry_at (pp_of 5) 1 Debug]"
    by (simp only: d)
       (simp add: add_to_recycle_list_def free_entry_params_def debug_then_input_def
          guest_at_def)
  show ?thesis
    by (intro conjI) (rule g r h d l)+
qed

section \<open>The end of replay\<close>

lemma header_after_read [simp]:
  "map_option last_prog_point (rr_nondet_log (after_read e s))
     = map_option last_prog_point (rr_nondet_log s)"
  by (cases "rr_nondet_log s")
     (simp_all add: after_read_def alloc_new_entry_def inc_item_number_def advance_def)

lemma rr_fill_loop_header:
  assumes "replaying s (concat (map item_bytes es))"
    "\<forall>e \<in> set es. variant_writable (variant e)"
    "rr_fill_loop h n s = Inr (k, s')"
  shows "map_option last_prog_point (rr_nondet_log s')
           = map_option last_prog_point (rr_nondet_log s)"
  using assms
proof (induction es arbitrary: n s)
  case Nil
  have "rr_fill_loop h n s = Inr (n, s)"
    using Nil.prems(1)
    by (subst rr_fill_loop.simps) (simp add: rr_fill_round_replaying_empty)
  then show ?case using Nil.prems(3) by simp
next
  case (Cons e es)
  have r: "replaying s (item_bytes e @ concat (map item_bytes es))"
    using Cons.prems(1) by simp
  have w: "variant_writable (variant e)" using Cons.prems(2) by simp
  let ?s1 = "(after_read e s)\<lparr>rr_queue := rr_queue s @ [decoded (log_pos s) e]\<rparr>"
  note rd = rr_fill_round_replaying [OF r w, of h n]
  note step = rr_read_item_replaying [OF r w]
  have r1: "replaying ?s1 (concat (map item_bytes es))"
    using step(2) by simp
  have w1: "\<forall>e \<in> set es. variant_writable (variant e)"
    using Cons.prems(2) by simp
  have h1: "map_option last_prog_point (rr_nondet_log ?s1)
              = map_option last_prog_point (rr_nondet_log s)"
    by simp
  show ?case
  proof (cases "boundary h e \<or> RR_MAX_QUEUE_LEN < n + 1")
    case True
    then have "rr_fill_loop h n s = Inr (n + 1, ?s1)"
      by (subst rr_fill_loop.simps) (auto simp: rd)
    then have "s' = ?s1" using Cons.prems(3) by simp
    then show ?thesis using h1 by simp
  next
    case False
    then have u: "rr_fill_loop h n s = rr_fill_loop h (n + 1) ?s1"
      by (subst rr_fill_loop.simps) (auto simp: rd)
    have l: "rr_fill_loop h (n + 1) ?s1 = Inr (k, s')"
      using Cons.prems(3) by (simp only: u)
    have "map_option last_prog_point (rr_nondet_log s')
            = map_option last_prog_point (rr_nondet_log ?s1)"
      by (rule Cons.IH [OF r1 w1 l])
    then show ?thesis by (simp only: h1)
  qed
qed

lemma rr_fill_queue_header:
  assumes "replaying s (concat (map item_bytes es))"
    "\<forall>e \<in> set es. variant_writable (variant e)"
    "rr_fill_queue h s = Inr s'"
  shows "map_option last_prog_point (rr_nondet_log s')
           = map_option last_prog_point (rr_nondet_log s)"
proof -
  obtain k s1 where k: "rr_fill_loop h 0 s = Inr (k, s1)"
    and s': "s' = (if k > rr_max_num_queue_entries s1
                   then s1\<lparr>rr_max_num_queue_entries := k\<rparr> else s1)"
    using assms(3)
    by (cases "rr_fill_loop h 0 s")
       (auto simp: rr_fill_queue_def split: if_splits)
  have "map_option last_prog_point (rr_nondet_log s1)
          = map_option last_prog_point (rr_nondet_log s)"
    by (rule rr_fill_loop_header [OF assms(1,2) k])
  then show ?thesis by (simp add: s')
qed

lemma fill_count_le: "fill_count h n es \<le> length es"
  by (induction es arbitrary: n) simp_all

lemma length_decoded_from [simp]: "length (decoded_from pos es) = length es"
  by (induction es arbitrary: pos) simp_all

lemma session_entries_not_last:
  "\<forall>e \<in> set (session_entries calls c). entry_kind e \<noteq> RR_LAST"
proof (induction calls arbitrary: c)
  case Nil
  then show ?case by simp
next
  case (Cons a calls)
  obtain pp call where a: "a = (pp, call)" by (cases a)
  show ?case
    using Cons.IH by (cases call) (auto simp: a)
qed

lemma item_bytes_not_Nil: "concat (map item_bytes es) = [] \<longleftrightarrow> es = []"
proof (cases es)
  case Nil
  then show ?thesis by simp
next
  case (Cons e es')
  have "length (item_bytes e @ concat (map item_bytes es')) \<noteq> 0"
    by (simp add: length_item_bytes)
  then have "item_bytes e @ concat (map item_bytes es') \<noteq> []"
    by (simp only: length_0_conv not_False_eq_True)
  then show ?thesis using Cons by simp
qed

lemma window_head:
  assumes "map f (q # qs) = map f (take (length (q # qs)) (drop n es))" "n < length es"
  shows "f q = f (es ! n)"
proof -
  obtain ys where "drop n es = es ! n # ys"
    using assms(2) by (metis Cons_nth_drop_Suc)
  then show ?thesis using assms(1) by simp
qed

text \<open>
  A state in the replay of the log of a record session, given by the entries of the log
  in order: the header read into \<^verbatim>\<open>last_prog_point\<close> is the program point of the last
  entry; n entries are consumed; the queue holds the entries that follow, in order, with
  their kinds and program points; the file is read up to the entry after them.
\<close>

definition replay_state :: "RR_log_entry list \<Rightarrow> nat \<Rightarrow> rr_state \<Rightarrow> bool" where
  "replay_state es n s =
     (n + length (rr_queue s) \<le> length es
      \<and> map entry_kind (rr_queue s) = map entry_kind (take (length (rr_queue s)) (drop n es))
      \<and> map prog_point (rr_queue s) = map prog_point (take (length (rr_queue s)) (drop n es))
      \<and> replaying s (concat (map item_bytes (drop (n + length (rr_queue s)) es)))
      \<and> map_option last_prog_point (rr_nondet_log s) = Some (prog_point (last es)))"

lemma replay_state_guest_at [simp]: "replay_state es n (guest_at g s) = replay_state es n s"
  by (cases "rr_nondet_log s")
     (simp_all add: replay_state_def guest_at_def replaying_def rr_in_replay_def)

lemma replay_state_finished:
  assumes rs: "replay_state (xs @ [x]) n s" and n: "n \<le> length xs"
    and x: "entry_kind x = RR_LAST"
    and xs: "\<forall>e \<in> set xs. entry_kind e \<noteq> RR_LAST"
  shows "\<exists>l. rr_nondet_log s = Some l \<and> last_prog_point l = prog_point x
           \<and> rr_replay_finished s
               = Inr (guest_instr_count (last_prog_point l) \<le> rr_get_guest_instr_count s
                      \<and> (case rr_queue s of [] \<Rightarrow> False
                          | head # rest \<Rightarrow> entry_kind head = RR_LAST))"
proof -
  let ?es = "xs @ [x]"
  let ?q = "rr_queue s"
  have len: "n + length ?q \<le> length ?es"
    and k: "map entry_kind ?q = map entry_kind (take (length ?q) (drop n ?es))"
    and p: "map prog_point ?q = map prog_point (take (length ?q) (drop n ?es))"
    and r: "replaying s (concat (map item_bytes (drop (n + length ?q) ?es)))"
    and hd: "map_option last_prog_point (rr_nondet_log s) = Some (prog_point (last ?es))"
    using rs by (simp_all only: replay_state_def)
  obtain l where l: "rr_nondet_log s = Some l" "last_prog_point l = prog_point x"
    using hd by (cases "rr_nondet_log s") simp_all
  have e: "rr_log_is_empty l \<longleftrightarrow> drop (n + length ?q) ?es = []"
    using replaying_empty [OF r l(1)] by (simp only: item_bytes_not_Nil)
  have f: "rr_replay_finished s
             = Inr (guest_instr_count (last_prog_point l) \<le> rr_get_guest_instr_count s
                    \<and> (case rr_queue s of [] \<Rightarrow> False
                        | head # rest \<Rightarrow> entry_kind head = RR_LAST))"
  proof (cases ?q)
    case Nil
    have "\<not> rr_log_is_empty l"
      using e n by (simp add: Nil)
    then show ?thesis
      by (simp add: rr_replay_finished_def l Nil)
  next
    case (Cons head rest)
    have nl: "n < length ?es" using n by simp
    have hk: "entry_kind head = entry_kind (?es ! n)"
      by (rule window_head [OF k [unfolded Cons] nl])
    have hp: "prog_point head = prog_point (?es ! n)"
      by (rule window_head [OF p [unfolded Cons] nl])
    show ?thesis
    proof (cases "entry_kind head = RR_LAST")
      case True
      have "\<not> n < length xs"
      proof
        assume a: "n < length xs"
        then have "?es ! n = xs ! n" by (simp add: nth_append)
        then have "entry_kind (xs ! n) = RR_LAST" using True hk by simp
        then show False using xs a by (meson nth_mem)
      qed
      then have nx: "n = length xs" using n by simp
      have "?es ! n = x" by (simp add: nx)
      then have pp: "prog_point head = last_prog_point l"
        using hp l(2) by simp
      have "rr_log_is_empty l"
        using e by (simp add: nx Cons)
      then show ?thesis
        by (simp add: rr_replay_finished_def l(1) Cons True pp)
    next
      case False
      then show ?thesis
        by (simp add: rr_replay_finished_def l(1) Cons)
    qed
  qed
  show ?thesis
    using l f by (intro exI conjI)
qed

lemma rr_do_begin_replay_session:
  assumes f: "log_file t = prog_point_bytes pp @ concat (map item_bytes es)"
    and w: "\<forall>e \<in> set es. variant_writable (variant e)"
    and q: "rr_queue t = []" and l: "es \<noteq> []" "prog_point (last es) = pp"
  shows "\<exists>s. rr_do_begin_replay h t = Inr s \<and> replay_state es 0 s
           \<and> rr_queue s = decoded_from 24 (take (fill_count h 0 es) es)"
proof -
  obtain s1 l1 where s1: "rr_create_replay_log t = Inr s1" "rr_nondet_log s1 = Some l1"
    "last_prog_point l1 = pp" "fp l1 = Some 24" "bytes_read l1 = 24"
    "log_size l1 = length (log_file t)" "log_type l1 = REPLAY" "log_file s1 = log_file t"
    "rr_queue s1 = rr_queue t"
    using create_replay_log_header [OF f] by blast
  let ?s = "(rr_reset_state s1)\<lparr>rr_mode := RR_REPLAY\<rparr>"
  have rp: "replaying ?s (concat (map item_bytes es))"
    using s1 by (simp add: replaying_def rr_in_replay_def f rr_reset_state_def)
  have q1: "rr_queue ?s = []"
    using s1(9) q by (simp add: rr_reset_state_def)
  have p1: "log_pos ?s = 24"
    using s1 by (simp add: log_pos_def rr_reset_state_def)
  have h1: "map_option last_prog_point (rr_nondet_log ?s) = Some pp"
    using s1 by (simp add: rr_reset_state_def)
  let ?k = "fill_count h 0 es"
  obtain s' where s': "rr_fill_queue h ?s = Inr s'"
    "rr_queue s' = decoded_from (log_pos ?s) (take ?k es)"
    "replaying s' (concat (map item_bytes (drop ?k es)))"
    using rr_fill_queue_replaying [OF rp w q1, of h] by blast
  have h': "map_option last_prog_point (rr_nondet_log s') = Some pp"
    using rr_fill_queue_header [OF rp w s'(1)] h1 by simp
  have kl: "?k \<le> length es" by (rule fill_count_le)
  have len: "length (rr_queue s') = ?k"
    using kl by (simp add: s'(2))
  have b: "rr_do_begin_replay h t = Inr s'"
    by (simp add: rr_do_begin_replay_def s1(1) s'(1))
  have "replay_state es 0 s'"
    unfolding replay_state_def len
    using kl s'(3) h' l(2)
    by (simp add: s'(2) decoded_from_maps)
  then show ?thesis using b s'(2) p1 by simp
qed

section \<open>Exit requests\<close>

lemma fill_count_replicate:
  assumes "\<not> boundary h d" "n + Suc m = Suc RR_MAX_QUEUE_LEN"
  shows "fill_count h n (replicate (Suc m) d @ rest) = Suc m"
  using assms(2)
proof (induction m arbitrary: n)
  case 0
  then have "RR_MAX_QUEUE_LEN < n + 1" by simp
  then show ?case by simp
next
  case (Suc m)
  have c: "\<not> (boundary h d \<or> RR_MAX_QUEUE_LEN < n + 1)"
    using assms(1) Suc.prems by simp
  have "n + 1 + Suc m = Suc RR_MAX_QUEUE_LEN"
    using Suc.prems by simp
  then have i: "fill_count h (n + 1) (replicate (Suc m) d @ rest) = Suc m"
    by (rule Suc.IH)
  have "fill_count h n (replicate (Suc (Suc m)) d @ rest)
          = fill_count h n (d # (replicate (Suc m) d @ rest))"
    by (simp only: replicate_Suc append_Cons)
  also have "\<dots> = 1 + fill_count h (n + 1) (replicate (Suc m) d @ rest)"
    using c by (simp only: fill_count.simps if_False)
  finally show ?case by (simp only: i)
qed

lemma session_entries_debug:
  "session_entries (replicate n (pp, Record_debug cs)) c = replicate n (entry_at pp cs Debug)"
  by (induction n) simp_all

lemma record_debug_calls:
  "recording s \<Longrightarrow> \<exists>s'. rr_record_calls (replicate n (pp, Record_debug cs)) s = Inr s'"
proof (induction n arbitrary: s)
  case 0
  then show ?case by simp
next
  case (Suc n)
  have r: "recording (guest_at pp s)" using Suc.prems by simp
  have c: "(guest_at pp s)\<lparr>panda_current_interrupt_request :=
                               panda_current_interrupt_request s\<rparr> = guest_at pp s"
    by (simp add: guest_at_def)
  have d: "do_record_call (Record_debug cs) (guest_at pp s)
             = Inr (recorded (entry_at pp cs Debug) (guest_at pp s))"
    using do_record_call_recording [OF r, of "Record_debug cs"]
    by (simp add: record_entries_def c del: do_record_call.simps)
  have "recording (recorded (entry_at pp cs Debug) (guest_at pp s))"
    using r by simp
  then obtain s' where
    "rr_record_calls (replicate n (pp, Record_debug cs))
       (recorded (entry_at pp cs Debug) (guest_at pp s)) = Inr s'"
    using Suc.IH by blast
  then show ?case
    by (simp add: d del: do_record_call.simps)
qed

text \<open>
  C7 (exit requests), a run in which no exit request is due and no 0 is stored. The
  record session: at instruction count 5 \<^verbatim>\<open>rr_record_exit_request\<close> with the value 0
  (nothing is written), then at instruction count 6 \<^verbatim>\<open>rr_record_debug\<close>
  RR_MAX_QUEUE_LEN + 1 times, and \<^verbatim>\<open>rr_do_end_record\<close> at instruction count 9. In the
  replay of its log, \<^verbatim>\<open>rr_do_begin_replay\<close> fills the queue up to its cap, with RR_DEBUG
  entries only. \<^verbatim>\<open>rr_replay_exit_request\<close> at instruction count 5, where the recorded
  value was 0, does not store 0: the loop of \<^verbatim>\<open>get_next_entry\<close> over leading RR_DEBUG
  entries empties the queue, and the head is then read through the null pointer.
\<close>

theorem rr_replay_exit_request_null_head:
  "\<exists>s1 s2 s3.
       rr_record_calls
         ((pp_of 5, Record_exit_request 3 0)
            # replicate (Suc RR_MAX_QUEUE_LEN) (pp_of 6, Record_debug 1))
         (rr_do_begin_record (rr_initial_state [])) = Inr s1
     \<and> rr_do_end_record h (guest_at (pp_of 9) s1) = Inr s2
     \<and> rr_do_begin_replay h (rr_initial_state (log_file s2)) = Inr s3
     \<and> map entry_kind (rr_queue s3) = replicate (Suc RR_MAX_QUEUE_LEN) RR_DEBUG
     \<and> rr_replay_exit_request h 3 (guest_at (pp_of 5) s3) = Inl Null_pointer"
proof -
  let ?n = "Suc RR_MAX_QUEUE_LEN"
  let ?d = "entry_at (pp_of 6) 1 Debug"
  let ?x = "entry_at (pp_of 9) (RR_CALLSITE_LAST h) Last"
  let ?calls = "(pp_of 5, Record_exit_request 3 0) # replicate ?n (pp_of 6, Record_debug 1)"
  let ?s0 = "rr_do_begin_record (rr_initial_state [])"
  have r0: "recording (guest_at (pp_of 5) ?s0)" by simp
  have e0: "do_record_call (Record_exit_request 3 0) (guest_at (pp_of 5) ?s0)
              = Inr (guest_at (pp_of 5) ?s0)"
    by (simp add: rr_record_exit_request_def)
  obtain s1 where d: "rr_record_calls (replicate ?n (pp_of 6, Record_debug 1))
                        (guest_at (pp_of 5) ?s0) = Inr s1"
    using record_debug_calls [OF r0] by blast
  have s1: "rr_record_calls ?calls ?s0 = Inr s1"
    by (simp only: rr_record_calls.simps e0 rr_bind_simps d)
  have es: "session_entries ?calls c = replicate ?n ?d" for c
    by (simp add: session_entries_debug del: replicate.simps)
  have r1: "recording s1"
    and f1: "log_file s1 = prog_point_bytes zero_prog_point
               @ concat (map item_bytes (replicate ?n ?d))"
    using rr_record_calls_recording [OF recording_begin s1] by (simp_all only: es begin_record_fields)
  let ?s2 = "closed h (guest_at (pp_of 9) s1)"
  have s2: "rr_do_end_record h (guest_at (pp_of 9) s1) = Inr ?s2"
    using rr_do_end_record_recording [of "guest_at (pp_of 9) s1" h] r1 by simp
  let ?t = "rr_initial_state (log_file ?s2)"
  have f: "log_file ?t
             = prog_point_bytes (pp_of 9) @ concat (map item_bytes (replicate ?n ?d @ [?x]))"
    by (simp add: rr_initial_state_def closed_def f1 new_item_def entry_at_def
          del: replicate.simps)
  have w: "\<forall>e \<in> set (replicate ?n ?d @ [?x]). variant_writable (variant e)"
    by (simp del: replicate.simps)
  have q: "rr_queue ?t = []" by (simp add: rr_initial_state_def)
  have ne: "replicate ?n ?d @ [?x] \<noteq> []" by simp
  have la: "prog_point (last (replicate ?n ?d @ [?x])) = pp_of 9" by simp
  have b: "\<not> boundary h ?d" by (simp add: boundary_def)
  have c: "fill_count h 0 (replicate ?n ?d @ [?x]) = ?n"
    by (rule fill_count_replicate [OF b]) simp
  have tk: "take ?n (replicate ?n ?d @ [?x]) = replicate ?n ?d"
    by (simp del: replicate.simps)
  obtain s3 where s3: "rr_do_begin_replay h ?t = Inr s3"
    "rr_queue s3 = decoded_from 24 (take (fill_count h 0 (replicate ?n ?d @ [?x]))
                                      (replicate ?n ?d @ [?x]))"
    using rr_do_begin_replay_session [OF f w q ne la, of h] by blast
  have k: "map entry_kind (rr_queue s3) = replicate ?n RR_DEBUG"
    by (simp only: s3(2) c tk decoded_from_maps map_replicate entry_at_fields kind_of.simps)
  have nq: "rr_queue s3 \<noteq> []"
    using k by (auto simp del: replicate.simps)
  have "\<forall>e \<in> set (rr_queue s3). entry_kind e \<in> set (map entry_kind (rr_queue s3))"
    by simp
  then have "\<forall>e \<in> set (rr_queue s3). entry_kind e = RR_DEBUG"
    by (simp only: k set_replicate_conv_if) (simp split: if_splits)
  then have sk: "skipped RR_EXIT_REQUEST (rr_queue s3) = []"
    by (simp add: skipped_def)
  have g: "get_next_entry h RR_EXIT_REQUEST 3 False (guest_at (pp_of 5) s3)
             = Inl Null_pointer"
    using nq by (simp add: get_next_entry_unfold sk)
  have x: "rr_replay_exit_request h 3 (guest_at (pp_of 5) s3) = Inl Null_pointer"
    by (simp add: rr_replay_exit_request_def g)
  show ?thesis
    by (intro exI conjI) (rule s1 s2 s3(1) k x)+
qed

section \<open>The assertion of rr_fill_queue\<close>

subsection \<open>Replay of the skipped calls\<close>

text \<open>
  The \<^verbatim>\<open>switch\<close> of \<^verbatim>\<open>rr_replay_skipped_calls_internal\<close>: the three kinds of call that
  it applies to the guest are appended to \<open>guest_effects\<close>; any other kind fails
  \<^verbatim>\<open>rr_assert(0)\<close>.
\<close>

fun apply_skipped_call :: "RR_skipped_call_args \<Rightarrow> rr_state \<Rightarrow> rr_error + rr_state" where
  "apply_skipped_call (RR_CALL_CPU_MEM_RW a b l) s =
     Inr (s\<lparr>guest_effects := guest_effects s @ [RR_CALL_CPU_MEM_RW a b l]\<rparr>)"
| "apply_skipped_call (RR_CALL_MEM_REGION_CHANGE a sz n len m ad) s =
     Inr (s\<lparr>guest_effects := guest_effects s @ [RR_CALL_MEM_REGION_CHANGE a sz n len m ad]\<rparr>)"
| "apply_skipped_call (RR_CALL_CPU_MEM_UNMAP a b l) s =
     Inr (s\<lparr>guest_effects := guest_effects s @ [RR_CALL_CPU_MEM_UNMAP a b l]\<rparr>)"
| "apply_skipped_call other s = Inl Assert_skipped_call_kind"

text \<open>
  One round of the \<^verbatim>\<open>do ... while (!replay_done)\<close> loop of
  \<^verbatim>\<open>rr_replay_skipped_calls_internal\<close>; it returns \<open>replay_done\<close> and the state. The entry
  that \<^verbatim>\<open>get_next_entry\<close> returns is of kind RR_SKIPPED_CALL, so the member of the union
  that is read is \<^verbatim>\<open>call_args\<close>.
\<close>

definition rr_replay_skipped_calls_round ::
  "rr_log_h \<Rightarrow> 32 word \<Rightarrow> rr_state \<Rightarrow> rr_error + (bool \<times> rr_state)" where
  "rr_replay_skipped_calls_round h call_site s =
     rr_bind (get_next_entry h RR_SKIPPED_CALL call_site False s) (\<lambda>(current_item, s1).
       case current_item of
         None \<Rightarrow> Inr (True, s1)
       | Some item \<Rightarrow>
           rr_bind
             (case variant item of
                Call_args args \<Rightarrow> apply_skipped_call args s1
              | _ \<Rightarrow> Inl Assert_skipped_call_kind)
             (\<lambda>s2.
                if call_site = RR_CALLSITE_MAIN_LOOP_WAIT h
                   \<and> rr_queue (add_to_recycle_list item s2) = []
                then rr_bind (rr_fill_queue h (add_to_recycle_list item s2))
                       (\<lambda>s3. Inr (False, s3))
                else Inr (False, add_to_recycle_list item s2)))"

lemma queue_shell [simp]:
  "rr_queue (add_to_recycle_list e s) = rr_queue s"
  "remaining (add_to_recycle_list e s) = remaining s"
  "rr_queue (s\<lparr>guest_effects := g\<rparr>) = rr_queue s"
  "remaining (s\<lparr>guest_effects := g\<rparr>) = remaining s"
  "rr_queue (s\<lparr>panda_current_interrupt_request := c\<rparr>) = rr_queue s"
  by (auto simp: add_to_recycle_list_def remaining_def split: option.splits)

lemma apply_skipped_call_frame:
  assumes "apply_skipped_call args s = Inr s'"
  shows "rr_queue s' = rr_queue s" "remaining s' = remaining s"
  using assms by (cases args; auto)+

lemma rr_fill_queue_measure:
  assumes "rr_fill_queue h s = Inr s'"
  shows "length (rr_queue s') + remaining s' \<le> length (rr_queue s) + remaining s"
proof -
  obtain es where "filled h 0 s s' es"
    using rr_fill_queue_filled(2) [OF assms] by blast
  then have "rr_queue s' = rr_queue s @ es" "remaining s' + 32 * length es \<le> remaining s"
    by (simp_all add: filled_def)
  then show ?thesis by simp
qed

lemma get_next_entry_measure:
  assumes "get_next_entry h kind call_site check_callsite s = Inr (Some item, s')"
  shows "length (rr_queue s') + remaining s' < length (rr_queue s) + remaining s"
proof -
  obtain s1 head rest where s1:
    "rr_queue s \<noteq> [] \<and> s1 = s \<or> rr_queue s = [] \<and> rr_fill_queue h s = Inr s1"
    "skipped kind (rr_queue s1) = head # rest" "s' = s1\<lparr>rr_queue := rest\<rparr>"
    using get_next_entry_result [OF assms] by auto
  have m: "length (rr_queue s1) + remaining s1 \<le> length (rr_queue s) + remaining s"
    using s1(1) rr_fill_queue_measure [of h s s1] by auto
  have "length (skipped kind (rr_queue s1)) \<le> length (rr_queue s1)"
    by (simp add: skipped_def length_dropWhile_le)
  then have "length rest < length (rr_queue s1)"
    by (simp add: s1(2))
  then show ?thesis
    using m by (simp add: s1(3))
qed

lemma rr_replay_skipped_calls_round_continues:
  assumes "rr_replay_skipped_calls_round h call_site s = Inr (False, s')"
  shows "length (rr_queue s') + remaining s' < length (rr_queue s) + remaining s"
proof -
  obtain r s1 where g: "get_next_entry h RR_SKIPPED_CALL call_site False s = Inr (r, s1)"
    using assms
    by (cases "get_next_entry h RR_SKIPPED_CALL call_site False s")
       (auto simp: rr_replay_skipped_calls_round_def)
  obtain item where r: "r = Some item"
    using assms g by (cases r) (simp_all add: rr_replay_skipped_calls_round_def)
  obtain s2 where a: "(case variant item of
                Call_args args \<Rightarrow> apply_skipped_call args s1
              | _ \<Rightarrow> Inl Assert_skipped_call_kind) = Inr s2"
    using assms g r
    by (cases "case variant item of
                Call_args args \<Rightarrow> apply_skipped_call args s1
              | _ \<Rightarrow> Inl Assert_skipped_call_kind")
       (simp_all add: rr_replay_skipped_calls_round_def)
  have f2: "rr_queue s2 = rr_queue s1" "remaining s2 = remaining s1"
    using a apply_skipped_call_frame [of _ s1 s2]
    by (cases "variant item"; simp)+
  have m1: "length (rr_queue s1) + remaining s1 < length (rr_queue s) + remaining s"
    using get_next_entry_measure g r by blast
  let ?s3 = "add_to_recycle_list item s2"
  have m3: "length (rr_queue ?s3) + remaining ?s3 < length (rr_queue s) + remaining s"
    using m1 f2 by simp
  have res: "(if call_site = RR_CALLSITE_MAIN_LOOP_WAIT h \<and> rr_queue ?s3 = []
              then rr_bind (rr_fill_queue h ?s3) (\<lambda>s3. Inr (False, s3))
              else Inr (False, ?s3)) = Inr (False, s')"
    using assms by (simp add: rr_replay_skipped_calls_round_def g r a)
  show ?thesis
  proof (cases "call_site = RR_CALLSITE_MAIN_LOOP_WAIT h \<and> rr_queue ?s3 = []")
    case True
    then have "rr_fill_queue h ?s3 = Inr s'"
      using res by (cases "rr_fill_queue h ?s3") simp_all
    then have "length (rr_queue s') + remaining s' \<le> length (rr_queue ?s3) + remaining ?s3"
      by (rule rr_fill_queue_measure)
    then show ?thesis using m3 by simp
  next
    case False
    then have "s' = ?s3" using res by auto
    then show ?thesis using m3 by simp
  qed
qed

text \<open>
  The loop. A round that does not end it has taken an entry from the queue, and what it
  read into the queue it read from the file, so the entries in the queue and the bytes
  left in the file bound the number of rounds.
\<close>

function rr_replay_skipped_calls_internal ::
  "rr_log_h \<Rightarrow> 32 word \<Rightarrow> rr_state \<Rightarrow> rr_error + rr_state" where
  "rr_replay_skipped_calls_internal h call_site s =
     (case rr_replay_skipped_calls_round h call_site s of
        Inl e \<Rightarrow> Inl e
      | Inr (replay_done, s1) \<Rightarrow>
          if replay_done then Inr s1 else rr_replay_skipped_calls_internal h call_site s1)"
  by pat_completeness auto
termination
  by (relation "measure (\<lambda>(h, call_site, s). length (rr_queue s) + remaining s)")
     (auto dest!: rr_replay_skipped_calls_round_continues)

declare rr_replay_skipped_calls_internal.simps [simp del]

subsection \<open>Replay calls\<close>

datatype rr_replay_call =
    Replay_debug "32 word"
  | Replay_input_1 "32 word"
  | Replay_input_2 "32 word"
  | Replay_input_4 "32 word"
  | Replay_input_8 "32 word"
  | Replay_interrupt_request "32 word"
  | Replay_exit_request "32 word"
  | Replay_skipped_calls "32 word"

text \<open>A replay call, for the state it leaves; what it stores for its caller is dropped.\<close>

fun do_replay_call :: "rr_log_h \<Rightarrow> rr_replay_call \<Rightarrow> rr_state \<Rightarrow> rr_error + rr_state" where
  "do_replay_call h (Replay_debug cs) s = Inr (rr_replay_debug cs s)"
| "do_replay_call h (Replay_input_1 cs) s = map_sum id snd (rr_replay_input_1 h cs s)"
| "do_replay_call h (Replay_input_2 cs) s = map_sum id snd (rr_replay_input_2 h cs s)"
| "do_replay_call h (Replay_input_4 cs) s = map_sum id snd (rr_replay_input_4 h cs s)"
| "do_replay_call h (Replay_input_8 cs) s = map_sum id snd (rr_replay_input_8 h cs s)"
| "do_replay_call h (Replay_interrupt_request cs) s =
     map_sum id snd (rr_replay_interrupt_request h cs s)"
| "do_replay_call h (Replay_exit_request cs) s =
     map_sum id snd (rr_replay_exit_request h cs s)"
| "do_replay_call h (Replay_skipped_calls cs) s = rr_replay_skipped_calls_internal h cs s"

text \<open>A run of replay calls, each at the program point the guest has reached.\<close>

fun rr_replay_calls ::
  "rr_log_h \<Rightarrow> (RR_prog_point \<times> rr_replay_call) list \<Rightarrow> rr_state \<Rightarrow> rr_error + rr_state" where
  "rr_replay_calls h [] s = Inr s"
| "rr_replay_calls h ((pp, call) # calls) s =
     rr_bind (do_replay_call h call (guest_at pp s)) (rr_replay_calls h calls)"

subsection \<open>No call fails the assertion\<close>

text \<open>A result other than the failure of the assertion of \<^verbatim>\<open>rr_fill_queue\<close>.\<close>

definition no_queue_assert :: "rr_error + 'a \<Rightarrow> bool" where
  "no_queue_assert r = (r \<noteq> Inl Assert_queue_empty)"

lemma no_queue_assert_simps [simp]:
  "no_queue_assert (Inr x)" "no_queue_assert (Inl e) = (e \<noteq> Assert_queue_empty)"
  by (simp_all add: no_queue_assert_def)

lemma no_queue_assert_bind:
  "no_queue_assert m \<Longrightarrow> (\<And>x. m = Inr x \<Longrightarrow> no_queue_assert (f x))
     \<Longrightarrow> no_queue_assert (rr_bind m f)"
  by (cases m) simp_all

lemma no_queue_assert_map_sum [simp]:
  "no_queue_assert (map_sum id f r) = no_queue_assert r"
  by (cases r) simp_all

lemma rr_fread_no_queue_assert: "no_queue_assert (rr_fread a b s)"
  by (simp add: rr_fread_def split: option.splits)

lemma read_call_args_no_queue_assert: "no_queue_assert (read_call_args k s)"
  by (auto simp: read_call_args_def intro!: no_queue_assert_bind rr_fread_no_queue_assert)

lemma read_variant_no_queue_assert: "no_queue_assert (read_variant k s)"
  by (auto simp: read_variant_def
        intro!: no_queue_assert_bind rr_fread_no_queue_assert read_call_args_no_queue_assert)

lemma rr_read_item_no_queue_assert: "no_queue_assert (rr_read_item s)"
  by (auto simp: rr_read_item_def split: option.splits
        intro!: no_queue_assert_bind rr_fread_no_queue_assert read_variant_no_queue_assert)

lemma rr_fill_round_no_queue_assert: "no_queue_assert (rr_fill_round h n s)"
  using rr_read_item_no_queue_assert [of s]
  by (auto simp: rr_fill_round_def split: option.splits sum.splits)

lemma rr_fill_loop_no_queue_assert: "no_queue_assert (rr_fill_loop h n s)"
proof (induction h n s rule: rr_fill_loop.induct)
  case (1 h n s)
  show ?case
  proof (cases "rr_fill_round h n s")
    case (Inl e)
    then show ?thesis
      using rr_fill_round_no_queue_assert [of h n s]
      by (subst rr_fill_loop.simps) simp
  next
    case (Inr x)
    obtain c n' s1 where x: "x = (c, n', s1)" by (cases x)
    have rd: "rr_fill_round h n s = Inr (c, n', s1)" using Inr x by simp
    show ?thesis
    proof (cases c)
      case True
      have "no_queue_assert (rr_fill_loop h n' s1)"
        by (rule "1.IH" [OF rd refl refl True])
      then show ?thesis
        using True by (subst rr_fill_loop.simps) (simp add: rd)
    next
      case False
      then show ?thesis
        by (subst rr_fill_loop.simps) (simp add: rd)
    qed
  qed
qed

lemma rr_fill_queue_no_queue_assert:
  "rr_queue s = [] \<Longrightarrow> no_queue_assert (rr_fill_queue h s)"
  using rr_fill_loop_no_queue_assert [of h 0 s]
  by (cases "rr_fill_loop h 0 s") (auto simp: rr_fill_queue_def)

text \<open>
  Every RR_INTERRUPT_REQUEST entry in the queue is the last entry of the queue.
\<close>

definition interrupt_last :: "RR_log_entry list \<Rightarrow> bool" where
  "interrupt_last q = (RR_INTERRUPT_REQUEST \<notin> set (map entry_kind (butlast q)))"

lemma interrupt_last_Nil [simp]: "interrupt_last []"
  by (simp add: interrupt_last_def)

lemma interrupt_last_Cons:
  "interrupt_last (e # q) \<Longrightarrow> interrupt_last q"
  by (cases q) (auto simp: interrupt_last_def)

lemma interrupt_last_head:
  "interrupt_last (e # q) \<Longrightarrow> entry_kind e = RR_INTERRUPT_REQUEST \<Longrightarrow> q = []"
  by (cases q) (auto simp: interrupt_last_def)

lemma interrupt_last_tl: "interrupt_last q \<Longrightarrow> interrupt_last (tl q)"
  by (cases q) (auto dest: interrupt_last_Cons)

lemma interrupt_last_dropWhile: "interrupt_last q \<Longrightarrow> interrupt_last (dropWhile P q)"
  by (induction q) (auto dest: interrupt_last_Cons)

lemma interrupt_last_skipped: "interrupt_last q \<Longrightarrow> interrupt_last (skipped kind q)"
  by (simp add: skipped_def interrupt_last_dropWhile)

lemma rr_fill_queue_interrupt_last:
  assumes "rr_fill_queue h s = Inr s'"
  shows "interrupt_last (rr_queue s')"
proof -
  have q: "rr_queue s = []" by (rule rr_fill_queue_filled(1) [OF assms])
  obtain es where "filled h 0 s s' es"
    using rr_fill_queue_filled(2) [OF assms] by blast
  then have "rr_queue s' = es" "\<forall>e \<in> set (butlast es). \<not> boundary h e"
    by (simp_all add: filled_def q)
  then show ?thesis
    by (auto simp: interrupt_last_def boundary_def)
qed

lemma get_next_entry_no_queue_assert:
  assumes "\<And>a b k. no_queue_assert (rr_prog_point_compare h a b k)"
  shows "no_queue_assert (get_next_entry h kind call_site check_callsite s)"
  unfolding get_next_entry_unfold
proof (rule no_queue_assert_bind)
  show "no_queue_assert (if rr_queue s = [] then rr_fill_queue h s else Inr s)"
    by (simp add: rr_fill_queue_no_queue_assert)
next
  fix s1
  show "no_queue_assert
          (if rr_queue s1 = [] then Inr (None, s1)
           else case skipped kind (rr_queue s1) of
                  [] \<Rightarrow> Inl Null_pointer
                | head # rest \<Rightarrow>
                    rr_bind
                      (if guest_instr_count (prog_point head) = 0 then Inr 0
                       else rr_prog_point_compare h (rr_prog_point s1) (prog_point head) kind)
                      (\<lambda>c. if c = 0 \<and> entry_kind head = kind
                                \<and> (callsite_loc head = call_site \<or> \<not> check_callsite)
                             then Inr (Some head, s1\<lparr>rr_queue := rest\<rparr>)
                             else Inr (None, s1\<lparr>rr_queue := head # rest\<rparr>)))"
    by (auto split: list.splits intro!: no_queue_assert_bind assms)
qed

lemma get_next_entry_queue:
  assumes "get_next_entry h kind call_site check_callsite s = Inr (r, s')"
  shows "\<exists>s1. (rr_queue s \<noteq> [] \<and> s1 = s \<or> rr_queue s = [] \<and> rr_fill_queue h s = Inr s1)
           \<and> (case r of
                 None \<Rightarrow> rr_queue s' = rr_queue s1 \<or> rr_queue s' = skipped kind (rr_queue s1)
               | Some item \<Rightarrow>
                   entry_kind item = kind \<and> skipped kind (rr_queue s1) = item # rr_queue s')"
proof (cases r)
  case None
  show ?thesis
    using get_next_entry_result [OF assms] by (auto simp: None)
next
  case (Some item)
  show ?thesis
    using get_next_entry_result [OF assms] by (auto simp: Some due_def)
qed

lemma get_next_entry_interrupt_last:
  assumes "get_next_entry h kind call_site check_callsite s = Inr (r, s')"
    "interrupt_last (rr_queue s)"
  shows "interrupt_last (rr_queue s')"
    and "kind = RR_INTERRUPT_REQUEST \<Longrightarrow> r \<noteq> None \<Longrightarrow> rr_queue s' = []"
proof -
  obtain s1 where s1:
    "rr_queue s \<noteq> [] \<and> s1 = s \<or> rr_queue s = [] \<and> rr_fill_queue h s = Inr s1"
    and q: "case r of
              None \<Rightarrow> rr_queue s' = rr_queue s1 \<or> rr_queue s' = skipped kind (rr_queue s1)
            | Some item \<Rightarrow>
                entry_kind item = kind \<and> skipped kind (rr_queue s1) = item # rr_queue s'"
    using get_next_entry_queue [OF assms(1)] by blast
  have i1: "interrupt_last (rr_queue s1)"
    using s1 assms(2) rr_fill_queue_interrupt_last [of h s s1] by auto
  have i2: "interrupt_last (skipped kind (rr_queue s1))"
    by (rule interrupt_last_skipped [OF i1])
  show "interrupt_last (rr_queue s')"
  proof (cases r)
    case None
    then show ?thesis using q i1 i2 by auto
  next
    case (Some item)
    then have "skipped kind (rr_queue s1) = item # rr_queue s'" using q by simp
    then show ?thesis using i2 interrupt_last_Cons [of item "rr_queue s'"] by simp
  qed
  show "rr_queue s' = []" if k: "kind = RR_INTERRUPT_REQUEST" and n: "r \<noteq> None"
  proof -
    obtain item where r: "r = Some item" using n by (cases r) simp_all
    have "entry_kind item = RR_INTERRUPT_REQUEST"
      "skipped kind (rr_queue s1) = item # rr_queue s'"
      using q k by (simp_all add: r)
    then show ?thesis
      using i2 interrupt_last_head [of item "rr_queue s'"] by simp
  qed
qed

lemma rr_replay_debug_interrupt_last:
  "interrupt_last (rr_queue s) \<Longrightarrow> interrupt_last (rr_queue (rr_replay_debug call_site s))"
  by (auto simp: rr_replay_debug_def unlink_head_def split: list.splits
        dest: interrupt_last_Cons)

lemma rr_replay_input_queue:
  assumes c: "\<And>a b k. no_queue_assert (rr_prog_point_compare h a b k)"
    and i: "interrupt_last (rr_queue s)"
  shows "no_queue_assert (rr_replay_input kind member h call_site s)"
    and "rr_replay_input kind member h call_site s = Inr (v, s')
           \<Longrightarrow> interrupt_last (rr_queue s')"
proof -
  show "no_queue_assert (rr_replay_input kind member h call_site s)"
    unfolding rr_replay_input_def
    by (rule no_queue_assert_bind [OF get_next_entry_no_queue_assert [OF c]])
       (auto split: option.splits)
  assume a: "rr_replay_input kind member h call_site s = Inr (v, s')"
  obtain r s1 where g: "get_next_entry h kind call_site False s = Inr (r, s1)"
    using a by (cases "get_next_entry h kind call_site False s")
               (auto simp: rr_replay_input_def)
  obtain item where "r = Some item" "s' = add_to_recycle_list item s1"
    using a g by (cases r) (auto simp: rr_replay_input_def split: if_splits)
  then show "interrupt_last (rr_queue s')"
    using get_next_entry_interrupt_last(1) [OF g i] by simp
qed

lemma rr_replay_exit_request_queue:
  assumes c: "\<And>a b k. no_queue_assert (rr_prog_point_compare h a b k)"
    and i: "interrupt_last (rr_queue s)"
  shows "no_queue_assert (rr_replay_exit_request h call_site s)"
    and "rr_replay_exit_request h call_site s = Inr (v, s') \<Longrightarrow> interrupt_last (rr_queue s')"
proof -
  show "no_queue_assert (rr_replay_exit_request h call_site s)"
    unfolding rr_replay_exit_request_def
    by (rule no_queue_assert_bind [OF get_next_entry_no_queue_assert [OF c]])
       (auto split: option.splits)
  assume a: "rr_replay_exit_request h call_site s = Inr (v, s')"
  obtain r s1 where g: "get_next_entry h RR_EXIT_REQUEST call_site False s = Inr (r, s1)"
    using a by (cases "get_next_entry h RR_EXIT_REQUEST call_site False s")
               (auto simp: rr_replay_exit_request_def)
  have "rr_queue s' = rr_queue s1"
    using a g by (cases r) (auto simp: rr_replay_exit_request_def split: if_splits)
  then show "interrupt_last (rr_queue s')"
    using get_next_entry_interrupt_last(1) [OF g i] by simp
qed

lemma rr_replay_interrupt_request_queue:
  assumes c: "\<And>a b k. no_queue_assert (rr_prog_point_compare h a b k)"
    and i: "interrupt_last (rr_queue s)"
  shows "no_queue_assert (rr_replay_interrupt_request h call_site s)"
    and "rr_replay_interrupt_request h call_site s = Inr (v, s')
           \<Longrightarrow> interrupt_last (rr_queue s')"
proof -
  show "no_queue_assert (rr_replay_interrupt_request h call_site s)"
    unfolding rr_replay_interrupt_request_def
  proof (rule no_queue_assert_bind [OF get_next_entry_no_queue_assert [OF c]])
    fix x
    assume g: "get_next_entry h RR_INTERRUPT_REQUEST call_site True s = Inr x"
    obtain r s1 where x: "x = (r, s1)" by (cases x)
    show "no_queue_assert
            (case x of
               (ci, s1) \<Rightarrow>
                 (case ci of
                    None \<Rightarrow> Inr (panda_current_interrupt_request s1, s1)
                  | Some item \<Rightarrow>
                      rr_bind
                        (rr_fill_queue h
                           (add_to_recycle_list item
                              (s1\<lparr>panda_current_interrupt_request :=
                                    interrupt_request (variant item)\<rparr>)))
                        (\<lambda>s2. Inr (panda_current_interrupt_request s2, s2))))"
    proof (cases r)
      case None
      then show ?thesis by (simp add: x)
    next
      case (Some item)
      have "rr_queue s1 = []"
        using get_next_entry_interrupt_last(2) [OF g [unfolded x] i] Some by simp
      then have "no_queue_assert
                   (rr_fill_queue h
                      (add_to_recycle_list item
                         (s1\<lparr>panda_current_interrupt_request :=
                               interrupt_request (variant item)\<rparr>)))"
        by (intro rr_fill_queue_no_queue_assert) simp
      then show ?thesis
        by (simp add: x Some) (rule no_queue_assert_bind, simp_all)
    qed
  qed
  assume a: "rr_replay_interrupt_request h call_site s = Inr (v, s')"
  obtain r s1 where g: "get_next_entry h RR_INTERRUPT_REQUEST call_site True s = Inr (r, s1)"
    using a by (cases "get_next_entry h RR_INTERRUPT_REQUEST call_site True s")
               (auto simp: rr_replay_interrupt_request_def)
  show "interrupt_last (rr_queue s')"
  proof (cases r)
    case None
    then have "s' = s1" using a g by (simp add: rr_replay_interrupt_request_def)
    then show ?thesis using get_next_entry_interrupt_last(1) [OF g i] by simp
  next
    case (Some item)
    let ?s2 = "add_to_recycle_list item
                 (s1\<lparr>panda_current_interrupt_request := interrupt_request (variant item)\<rparr>)"
    have "rr_fill_queue h ?s2 = Inr s'"
      using a g Some
      by (cases "rr_fill_queue h ?s2") (auto simp: rr_replay_interrupt_request_def)
    then show ?thesis by (rule rr_fill_queue_interrupt_last)
  qed
qed

lemma apply_skipped_call_no_queue_assert:
  "no_queue_assert (case v of Call_args args \<Rightarrow> apply_skipped_call args s
                    | _ \<Rightarrow> Inl Assert_skipped_call_kind)"
proof (cases v)
  case (Call_args args)
  then show ?thesis by (cases args) simp_all
qed simp_all

lemma rr_replay_skipped_calls_round_queue:
  assumes c: "\<And>a b k. no_queue_assert (rr_prog_point_compare h a b k)"
    and i: "interrupt_last (rr_queue s)"
  shows "no_queue_assert (rr_replay_skipped_calls_round h call_site s)"
    and "rr_replay_skipped_calls_round h call_site s = Inr (d, s')
           \<Longrightarrow> interrupt_last (rr_queue s')"
proof -
  show "no_queue_assert (rr_replay_skipped_calls_round h call_site s)"
    unfolding rr_replay_skipped_calls_round_def
    by (rule no_queue_assert_bind [OF get_next_entry_no_queue_assert [OF c]])
       (auto split: option.splits
          intro!: no_queue_assert_bind apply_skipped_call_no_queue_assert
                  rr_fill_queue_no_queue_assert)
  assume a: "rr_replay_skipped_calls_round h call_site s = Inr (d, s')"
  obtain r s1 where g: "get_next_entry h RR_SKIPPED_CALL call_site False s = Inr (r, s1)"
    using a by (cases "get_next_entry h RR_SKIPPED_CALL call_site False s")
               (auto simp: rr_replay_skipped_calls_round_def)
  note i1 = get_next_entry_interrupt_last(1) [OF g i]
  show "interrupt_last (rr_queue s')"
  proof (cases r)
    case None
    then have "s' = s1" using a g by (simp add: rr_replay_skipped_calls_round_def)
    then show ?thesis using i1 by simp
  next
    case (Some item)
    obtain s2 where e: "(case variant item of
                Call_args args \<Rightarrow> apply_skipped_call args s1
              | _ \<Rightarrow> Inl Assert_skipped_call_kind) = Inr s2"
      using a g Some
      by (cases "case variant item of
                Call_args args \<Rightarrow> apply_skipped_call args s1
              | _ \<Rightarrow> Inl Assert_skipped_call_kind")
         (simp_all add: rr_replay_skipped_calls_round_def)
    have f2: "rr_queue s2 = rr_queue s1"
      using e apply_skipped_call_frame(1) [of _ s1 s2]
      by (cases "variant item"; simp)
    let ?s3 = "add_to_recycle_list item s2"
    have i3: "interrupt_last (rr_queue ?s3)" using i1 f2 by simp
    have res: "(if call_site = RR_CALLSITE_MAIN_LOOP_WAIT h \<and> rr_queue ?s3 = []
                then rr_bind (rr_fill_queue h ?s3) (\<lambda>s3. Inr (False, s3))
                else Inr (False, ?s3)) = Inr (d, s')"
      using a by (simp add: rr_replay_skipped_calls_round_def g Some e)
    show ?thesis
    proof (cases "call_site = RR_CALLSITE_MAIN_LOOP_WAIT h \<and> rr_queue ?s3 = []")
      case True
      then have "rr_fill_queue h ?s3 = Inr s'"
        using res by (cases "rr_fill_queue h ?s3") simp_all
      then show ?thesis by (rule rr_fill_queue_interrupt_last)
    next
      case False
      then have "s' = ?s3" using res by auto
      then show ?thesis using i3 by simp
    qed
  qed
qed

lemma rr_replay_skipped_calls_internal_queue:
  assumes c: "\<And>a b k. no_queue_assert (rr_prog_point_compare h a b k)"
    and i: "interrupt_last (rr_queue s)"
  shows "no_queue_assert (rr_replay_skipped_calls_internal h call_site s)
       \<and> (\<forall>s'. rr_replay_skipped_calls_internal h call_site s = Inr s'
             \<longrightarrow> interrupt_last (rr_queue s'))"
  using c i
proof (induction h call_site s rule: rr_replay_skipped_calls_internal.induct)
  case (1 h call_site s)
  note rq = rr_replay_skipped_calls_round_queue [OF "1.prems", of call_site]
  show ?case
  proof (cases "rr_replay_skipped_calls_round h call_site s")
    case (Inl e)
    have "e \<noteq> Assert_queue_empty"
      using rq(1) by (simp add: Inl)
    then show ?thesis
      by (subst (1 2) rr_replay_skipped_calls_internal.simps) (simp add: Inl)
  next
    case (Inr x)
    obtain d s1 where x: "x = (d, s1)" by (cases x)
    have rd: "rr_replay_skipped_calls_round h call_site s = Inr (d, s1)"
      using Inr x by simp
    have i1: "interrupt_last (rr_queue s1)" by (rule rq(2) [OF rd])
    show ?thesis
    proof (cases d)
      case True
      then show ?thesis
        using i1 by (subst (1 2) rr_replay_skipped_calls_internal.simps) (simp add: rd)
    next
      case False
      have "no_queue_assert (rr_replay_skipped_calls_internal h call_site s1)
         \<and> (\<forall>s'. rr_replay_skipped_calls_internal h call_site s1 = Inr s'
               \<longrightarrow> interrupt_last (rr_queue s'))"
        by (rule "1.IH" [OF rd refl False "1.prems"(1) i1])
      then show ?thesis
        using False by (subst (1 2) rr_replay_skipped_calls_internal.simps) (simp add: rd)
    qed
  qed
qed

lemma do_replay_call_queue:
  assumes c: "\<And>a b k. no_queue_assert (rr_prog_point_compare h a b k)"
    and i: "interrupt_last (rr_queue s)"
  shows "no_queue_assert (do_replay_call h call s)"
    and "do_replay_call h call s = Inr s' \<Longrightarrow> interrupt_last (rr_queue s')"
proof -
  show "no_queue_assert (do_replay_call h call s)"
    using rr_replay_skipped_calls_internal_queue [OF c i]
    by (cases call)
       (simp_all add: rr_replay_input_1_def rr_replay_input_2_def rr_replay_input_4_def
          rr_replay_input_8_def rr_replay_input_queue(1) [OF c i]
          rr_replay_exit_request_queue(1) [OF c i]
          rr_replay_interrupt_request_queue(1) [OF c i])
  assume a: "do_replay_call h call s = Inr s'"
  show "interrupt_last (rr_queue s')"
  proof (cases call)
    case (Replay_debug cs)
    then show ?thesis using a rr_replay_debug_interrupt_last [OF i] by auto
  next
    case (Replay_input_1 cs)
    then obtain v where "rr_replay_input RR_INPUT_1 input_1 h cs s = Inr (v, s')"
      using a by (cases "rr_replay_input_1 h cs s") (auto simp: rr_replay_input_1_def)
    then show ?thesis by (rule rr_replay_input_queue(2) [OF c i])
  next
    case (Replay_input_2 cs)
    then obtain v where "rr_replay_input RR_INPUT_2 input_2 h cs s = Inr (v, s')"
      using a by (cases "rr_replay_input_2 h cs s") (auto simp: rr_replay_input_2_def)
    then show ?thesis by (rule rr_replay_input_queue(2) [OF c i])
  next
    case (Replay_input_4 cs)
    then obtain v where "rr_replay_input RR_INPUT_4 input_4 h cs s = Inr (v, s')"
      using a by (cases "rr_replay_input_4 h cs s") (auto simp: rr_replay_input_4_def)
    then show ?thesis by (rule rr_replay_input_queue(2) [OF c i])
  next
    case (Replay_input_8 cs)
    then obtain v where "rr_replay_input RR_INPUT_8 input_8 h cs s = Inr (v, s')"
      using a by (cases "rr_replay_input_8 h cs s") (auto simp: rr_replay_input_8_def)
    then show ?thesis by (rule rr_replay_input_queue(2) [OF c i])
  next
    case (Replay_interrupt_request cs)
    then obtain v where "rr_replay_interrupt_request h cs s = Inr (v, s')"
      using a by (cases "rr_replay_interrupt_request h cs s") auto
    then show ?thesis by (rule rr_replay_interrupt_request_queue(2) [OF c i])
  next
    case (Replay_exit_request cs)
    then obtain v where "rr_replay_exit_request h cs s = Inr (v, s')"
      using a by (cases "rr_replay_exit_request h cs s") auto
    then show ?thesis by (rule rr_replay_exit_request_queue(2) [OF c i])
  next
    case (Replay_skipped_calls cs)
    then show ?thesis
      using a rr_replay_skipped_calls_internal_queue [OF c i, of cs] by simp
  qed
qed

lemma rr_replay_calls_queue:
  assumes c: "\<And>a b k. no_queue_assert (rr_prog_point_compare h a b k)"
    and i: "interrupt_last (rr_queue s)"
  shows "no_queue_assert (rr_replay_calls h calls s)
       \<and> (\<forall>s'. rr_replay_calls h calls s = Inr s' \<longrightarrow> interrupt_last (rr_queue s'))"
  using i
proof (induction calls arbitrary: s)
  case Nil
  then show ?case by simp
next
  case (Cons a calls)
  obtain pp call where a: "a = (pp, call)" by (cases a)
  have ig: "interrupt_last (rr_queue (guest_at pp s))" using Cons.prems by simp
  note d = do_replay_call_queue [OF c ig, of call]
  show ?case
  proof (cases "do_replay_call h call (guest_at pp s)")
    case (Inl e)
    then show ?thesis using d(1) by (simp add: a)
  next
    case (Inr s1)
    have "interrupt_last (rr_queue s1)" by (rule d(2) [OF Inr])
    then show ?thesis using Cons.IH [of s1] by (simp add: a Inr)
  qed
qed

lemma rr_create_replay_log_queue:
  assumes "rr_create_replay_log t = Inr s"
  shows "rr_queue s = rr_queue t"
proof -
  let ?t = "t\<lparr>rr_nondet_log :=
               Some \<lparr>log_type = REPLAY, fp = Some 0, last_prog_point = zero_prog_point,
                     bytes_read = 0, log_size = length (log_file t), item_number = 0,
                     current_item = zero_entry\<rparr>\<rparr>"
  obtain bs s0 where r: "rr_fread 24 1 ?t = Inr (bs, s0)"
    and s: "s = set_last_prog_point (prog_point_of_bytes bs) s0"
    using assms
    by (cases "rr_fread 24 1 ?t") (auto simp: rr_create_replay_log_def)
  have "rr_queue s0 = rr_queue ?t"
    by (rule reads_fields(1) [OF rr_fread_reads [OF r]])
  then show ?thesis by (simp add: s set_last_prog_point_def)
qed

lemma rr_do_begin_replay_queue:
  assumes "rr_queue t = []"
  shows "no_queue_assert (rr_do_begin_replay h t)"
    and "rr_do_begin_replay h t = Inr s \<Longrightarrow> interrupt_last (rr_queue s)"
proof -
  have c: "no_queue_assert (rr_create_replay_log t)"
    unfolding rr_create_replay_log_def
    by (rule no_queue_assert_bind [OF rr_fread_no_queue_assert]) auto
  show "no_queue_assert (rr_do_begin_replay h t)"
    unfolding rr_do_begin_replay_def
  proof (rule no_queue_assert_bind [OF c])
    fix s1
    assume "rr_create_replay_log t = Inr s1"
    then have "rr_queue s1 = []"
      using rr_create_replay_log_queue assms by simp
    then show "no_queue_assert (rr_fill_queue h ((rr_reset_state s1)\<lparr>rr_mode := RR_REPLAY\<rparr>))"
      by (intro rr_fill_queue_no_queue_assert) (simp add: rr_reset_state_def)
  qed
  assume "rr_do_begin_replay h t = Inr s"
  then obtain s1 where
    "rr_fill_queue h ((rr_reset_state s1)\<lparr>rr_mode := RR_REPLAY\<rparr>) = Inr s"
    by (cases "rr_create_replay_log t") (auto simp: rr_do_begin_replay_def)
  then show "interrupt_last (rr_queue s)" by (rule rr_fill_queue_interrupt_last)
qed

lemma rr_do_end_replay_queue:
  "rr_do_end_replay s = Inr s' \<Longrightarrow> rr_queue s' = []"
  by (auto simp: rr_do_end_replay_def rr_destroy_log_def split: option.splits if_splits)

text \<open>
  C10 (the assertion of \<^verbatim>\<open>rr_fill_queue\<close>). Replay begins with the queue empty, as it is
  when the process starts and after \<^verbatim>\<open>rr_do_end_replay\<close>; the comparison of rr_log.h has
  assertions of its own and does not fail the one of \<^verbatim>\<open>rr_fill_queue\<close>. Then, whatever
  the log file holds, \<^verbatim>\<open>rr_do_begin_replay\<close> does not fail the assertion, and no run of
  replay calls after it does (\<^verbatim>\<open>rr_replay_debug\<close>, \<^verbatim>\<open>rr_replay_input_N\<close>,
  \<^verbatim>\<open>rr_replay_interrupt_request\<close>, \<^verbatim>\<open>rr_replay_exit_request\<close>,
  \<^verbatim>\<open>rr_replay_skipped_calls_internal\<close>, at any program points). After such a run every
  RR_INTERRUPT_REQUEST entry in the queue is the last entry of the queue; so when
  \<^verbatim>\<open>get_next_entry\<close> then returns an RR_INTERRUPT_REQUEST entry, as in
  \<^verbatim>\<open>rr_replay_interrupt_request\<close>, the queue is empty after it, and the call of
  \<^verbatim>\<open>rr_fill_queue\<close> that follows finds it empty.
\<close>

theorem fill_queue_assertion_holds:
  assumes "\<forall>a b k. rr_prog_point_compare h a b k \<noteq> Inl Assert_queue_empty"
    and "rr_queue t = []"
  shows "rr_do_begin_replay h t \<noteq> Inl Assert_queue_empty
       \<and> (\<forall>s calls. rr_do_begin_replay h t = Inr s \<longrightarrow>
             rr_replay_calls h calls s \<noteq> Inl Assert_queue_empty
           \<and> (\<forall>s1. rr_replay_calls h calls s = Inr s1 \<longrightarrow>
                 interrupt_last (rr_queue s1)
               \<and> (\<forall>s2. rr_do_end_replay s1 = Inr s2 \<longrightarrow> rr_queue s2 = [])
               \<and> (\<forall>pp call_site item s2.
                     get_next_entry h RR_INTERRUPT_REQUEST call_site True (guest_at pp s1)
                       = Inr (Some item, s2)
                     \<longrightarrow> rr_queue s2 = []
                        \<and> rr_replay_interrupt_request h call_site (guest_at pp s1)
                            \<noteq> Inl Assert_queue_empty)))"
proof -
  have c: "\<And>a b k. no_queue_assert (rr_prog_point_compare h a b k)"
    using assms(1) by (simp add: no_queue_assert_def)
  note b = rr_do_begin_replay_queue [OF assms(2), of h]
  have 1: "rr_do_begin_replay h t \<noteq> Inl Assert_queue_empty"
    using b(1) by (simp add: no_queue_assert_def)
  have 2: "rr_replay_calls h calls s \<noteq> Inl Assert_queue_empty
           \<and> (\<forall>s1. rr_replay_calls h calls s = Inr s1 \<longrightarrow>
                 interrupt_last (rr_queue s1)
               \<and> (\<forall>s2. rr_do_end_replay s1 = Inr s2 \<longrightarrow> rr_queue s2 = [])
               \<and> (\<forall>pp call_site item s2.
                     get_next_entry h RR_INTERRUPT_REQUEST call_site True (guest_at pp s1)
                       = Inr (Some item, s2)
                     \<longrightarrow> rr_queue s2 = []
                        \<and> rr_replay_interrupt_request h call_site (guest_at pp s1)
                            \<noteq> Inl Assert_queue_empty))"
    if s: "rr_do_begin_replay h t = Inr s" for s calls
  proof -
    have i: "interrupt_last (rr_queue s)" by (rule b(2) [OF s])
    note r = rr_replay_calls_queue [OF c i, of calls]
    have r1: "rr_replay_calls h calls s \<noteq> Inl Assert_queue_empty"
      using r by (simp add: no_queue_assert_def)
    have r2: "interrupt_last (rr_queue s1)
               \<and> (\<forall>s2. rr_do_end_replay s1 = Inr s2 \<longrightarrow> rr_queue s2 = [])
               \<and> (\<forall>pp call_site item s2.
                     get_next_entry h RR_INTERRUPT_REQUEST call_site True (guest_at pp s1)
                       = Inr (Some item, s2)
                     \<longrightarrow> rr_queue s2 = []
                        \<and> rr_replay_interrupt_request h call_site (guest_at pp s1)
                            \<noteq> Inl Assert_queue_empty)"
      if s1: "rr_replay_calls h calls s = Inr s1" for s1
    proof -
      have i1: "interrupt_last (rr_queue s1)" using r s1 by simp
      have e: "\<forall>s2. rr_do_end_replay s1 = Inr s2 \<longrightarrow> rr_queue s2 = []"
        using rr_do_end_replay_queue by blast
      have g: "rr_queue s2 = []
                 \<and> rr_replay_interrupt_request h call_site (guest_at pp s1)
                     \<noteq> Inl Assert_queue_empty"
        if g: "get_next_entry h RR_INTERRUPT_REQUEST call_site True (guest_at pp s1)
                 = Inr (Some item, s2)" for pp call_site item s2
      proof -
        have ig: "interrupt_last (rr_queue (guest_at pp s1))" using i1 by simp
        have "rr_queue s2 = []"
          by (rule get_next_entry_interrupt_last(2) [OF g ig refl]) simp
        moreover have "rr_replay_interrupt_request h call_site (guest_at pp s1)
                         \<noteq> Inl Assert_queue_empty"
          using rr_replay_interrupt_request_queue(1) [OF c ig, of call_site]
          by (simp add: no_queue_assert_def)
        ultimately show ?thesis by (rule conjI)
      qed
      show ?thesis
        by (intro conjI allI impI) (rule i1 e [rule_format] g [THEN conjunct1]
              g [THEN conjunct2] | assumption)+
    qed
    show ?thesis
      by (rule conjI [OF r1], intro allI impI) (rule r2)
  qed
  show ?thesis
    by (rule conjI [OF 1], intro allI impI) (rule 2)
qed

lemma replaying_shell [simp]:
  "replaying (add_to_recycle_list e s) bs = replaying s bs"
  "replaying (s\<lparr>panda_current_interrupt_request := c\<rparr>) bs = replaying s bs"
  "replaying (guest_at g s) bs = replaying s bs"
  by (auto simp: replaying_def rr_in_replay_def add_to_recycle_list_def guest_at_def
        split: option.splits)

theorem fill_queue_assertion_holds_witness:
  "\<exists>s1 s2 s3 s4 s5.
       rr_record_calls [(pp_of 5, Record_interrupt_request 2 7)]
         (rr_do_begin_record (rr_initial_state [])) = Inr s1
     \<and> rr_do_end_record rr_log_h_model (guest_at (pp_of 9) s1) = Inr s2
     \<and> rr_do_begin_replay rr_log_h_model (rr_initial_state (log_file s2)) = Inr s3
     \<and> map entry_kind (rr_queue s3) = [RR_INTERRUPT_REQUEST]
     \<and> get_next_entry rr_log_h_model RR_INTERRUPT_REQUEST 2 True (guest_at (pp_of 5) s3)
         = Inr (Some (decoded 24 (entry_at (pp_of 5) 2 (Interrupt_request 7))), s4)
     \<and> rr_queue s4 = []
     \<and> rr_replay_interrupt_request rr_log_h_model 2 (guest_at (pp_of 5) s3) = Inr (7, s5)
     \<and> map entry_kind (rr_queue s5) = [RR_LAST]"
proof -
  let ?h = rr_log_h_model
  let ?i = "entry_at (pp_of 5) 2 (Interrupt_request 7)"
  let ?x = "entry_at (pp_of 9) (RR_CALLSITE_LAST ?h) Last"
  let ?s0 = "rr_do_begin_record (rr_initial_state [])"
  have "\<exists>s1. rr_record_calls [(pp_of 5, Record_interrupt_request 2 7)] ?s0 = Inr s1"
    by (simp add: do_record_call_recording record_entries_def rr_initial_state_def
          del: do_record_call.simps)
  then obtain s1 where s1: "rr_record_calls [(pp_of 5, Record_interrupt_request 2 7)] ?s0 = Inr s1"
    by blast
  have r1: "recording s1"
    and f1: "log_file s1 = prog_point_bytes zero_prog_point @ concat (map item_bytes [?i])"
    using rr_record_calls_recording [OF recording_begin s1]
    by (simp_all add: rr_initial_state_def)
  let ?s2 = "closed ?h (guest_at (pp_of 9) s1)"
  have s2: "rr_do_end_record ?h (guest_at (pp_of 9) s1) = Inr ?s2"
    using rr_do_end_record_recording [of "guest_at (pp_of 9) s1" ?h] r1 by simp
  let ?t = "rr_initial_state (log_file ?s2)"
  have f: "log_file ?t = prog_point_bytes (pp_of 9) @ concat (map item_bytes [?i, ?x])"
    by (simp add: rr_initial_state_def closed_def f1 new_item_def entry_at_def)
  have w: "\<forall>e \<in> set [?i, ?x]. variant_writable (variant e)" by simp
  have q: "rr_queue ?t = []" by (simp add: rr_initial_state_def)
  have k: "fill_count ?h 0 [?i, ?x] = 1" by (simp add: boundary_def)
  obtain s3 where s3: "rr_do_begin_replay ?h ?t = Inr s3" "replay_state [?i, ?x] 0 s3"
    "rr_queue s3 = decoded_from 24 (take (fill_count ?h 0 [?i, ?x]) [?i, ?x])"
    using rr_do_begin_replay_session [OF f w q, of ?h] by auto
  have q3: "rr_queue s3 = [decoded 24 ?i]"
    by (simp only: s3(3) k) simp
  have k3: "map entry_kind (rr_queue s3) = [RR_INTERRUPT_REQUEST]"
    by (simp add: q3)
  have rp: "replaying s3 (concat (map item_bytes [?x]))"
    using s3(2) by (simp add: replay_state_def q3)
  have c: "\<forall>a b k. rr_prog_point_compare ?h a b k \<noteq> Inl Assert_queue_empty"
    by (simp add: rr_log_h_model_def rr_prog_point_compare_model_def)
  note t = fill_queue_assertion_holds [OF c q, THEN conjunct2, rule_format, OF s3(1), of "[]",
             THEN conjunct2, rule_format, THEN conjunct2, THEN conjunct2, rule_format]
  let ?s4 = "(guest_at (pp_of 5) s3)\<lparr>rr_queue := []\<rparr>"
  have g: "get_next_entry ?h RR_INTERRUPT_REQUEST 2 True (guest_at (pp_of 5) s3)
             = Inr (Some (decoded 24 ?i), ?s4)"
    by (simp add: get_next_entry_unfold q3 skipped_def rr_log_h_model_def
          rr_prog_point_compare_model_def pp_of_def)
  have e: "rr_replay_calls ?h [] s3 = Inr s3" by simp
  have q4: "rr_queue ?s4 = []"
    by (rule t [OF e g, THEN conjunct1])
  let ?s = "add_to_recycle_list (decoded 24 ?i)
              (?s4\<lparr>panda_current_interrupt_request := 7\<rparr>)"
  have rp': "replaying ?s (concat (map item_bytes [?x]))"
    using rp by simp
  have w': "\<forall>e \<in> set [?x]. variant_writable (variant e)" by simp
  have qs: "rr_queue ?s = []" by simp
  obtain s5 where s5: "rr_fill_queue ?h ?s = Inr s5"
    "rr_queue s5 = decoded_from (log_pos ?s) (take (fill_count ?h 0 [?x]) [?x])"
    using rr_fill_queue_replaying [OF rp' w' qs, of ?h] by blast
  obtain es where "filled ?h 0 ?s s5 es"
    using rr_fill_queue_filled(2) [OF s5(1)] by blast
  then have c5: "panda_current_interrupt_request s5 = 7"
    by (simp add: filled_def add_to_recycle_list_def)
  have i: "rr_replay_interrupt_request ?h 2 (guest_at (pp_of 5) s3) = Inr (7, s5)"
    by (simp add: rr_replay_interrupt_request_def g s5(1) c5)
  have k5: "map entry_kind (rr_queue s5) = [RR_LAST]"
    by (simp add: s5(2) boundary_def)
  show ?thesis
    by (intro exI conjI) (rule s1 s2 s3(1) k3 g q4 i k5)+
qed

section \<open>The end of replay, throughout a run\<close>

text \<open>
  The log of a record session, as its entries \<open>xs\<close> and its last entry \<open>x\<close>: the last
  entry is the only RR_LAST entry, and every entry is one that \<^verbatim>\<open>rr_write_item\<close> has
  written.
\<close>

definition session_log :: "RR_log_entry list \<Rightarrow> RR_log_entry \<Rightarrow> bool" where
  "session_log xs x =
     (entry_kind x = RR_LAST \<and> RR_LAST \<notin> set (map entry_kind xs)
      \<and> list_all (\<lambda>e. variant_writable (variant e)) (xs @ [x]))"

text \<open>A state in the replay of such a log in which the RR_LAST entry is not consumed.\<close>

definition session_replay :: "RR_log_entry list \<Rightarrow> RR_log_entry \<Rightarrow> rr_state \<Rightarrow> bool" where
  "session_replay xs x s = (\<exists>n. n \<le> length xs \<and> replay_state (xs @ [x]) n s)"

lemma replaying_effects [simp]:
  "replaying (s\<lparr>guest_effects := g\<rparr>) bs = replaying s bs"
  by (auto simp: replaying_def rr_in_replay_def split: option.splits)

lemma replay_state_shell [simp]:
  "replay_state es n (add_to_recycle_list e s) = replay_state es n s"
  "replay_state es n (s\<lparr>panda_current_interrupt_request := c\<rparr>) = replay_state es n s"
  "replay_state es n (s\<lparr>guest_effects := g\<rparr>) = replay_state es n s"
  by (simp_all add: replay_state_def) (simp_all add: add_to_recycle_list_def)

lemma session_replay_shell [simp]:
  "session_replay xs x (add_to_recycle_list e s) = session_replay xs x s"
  "session_replay xs x (s\<lparr>panda_current_interrupt_request := c\<rparr>) = session_replay xs x s"
  "session_replay xs x (s\<lparr>guest_effects := g\<rparr>) = session_replay xs x s"
  "session_replay xs x (guest_at pp s) = session_replay xs x s"
  by (simp_all add: session_replay_def)

lemma replay_state_fill:
  assumes rs: "replay_state es n s" and q: "rr_queue s = []"
    and w: "\<forall>e \<in> set es. variant_writable (variant e)"
    and f: "rr_fill_queue h s = Inr s'"
  shows "replay_state es n s'"
proof -
  let ?r = "drop n es"
  let ?k = "fill_count h 0 ?r"
  have n: "n \<le> length es"
    and rp: "replaying s (concat (map item_bytes ?r))"
    and hd: "map_option last_prog_point (rr_nondet_log s) = Some (prog_point (last es))"
    using rs by (simp_all add: replay_state_def q)
  have w': "\<forall>e \<in> set ?r. variant_writable (variant e)"
    using w by (meson in_set_dropD)
  obtain s'' where s'': "rr_fill_queue h s = Inr s''"
    "rr_queue s'' = decoded_from (log_pos s) (take ?k ?r)"
    "replaying s'' (concat (map item_bytes (drop ?k ?r)))"
    using rr_fill_queue_replaying [OF rp w' q, of h] by blast
  have e: "s'' = s'" using s''(1) f by simp
  have hd': "map_option last_prog_point (rr_nondet_log s') = Some (prog_point (last es))"
    using rr_fill_queue_header [OF rp w' f] hd by simp
  have kl: "?k \<le> length es - n"
    using fill_count_le [of h 0 ?r] by simp
  have len: "length (rr_queue s') = ?k"
    using kl by (simp add: s''(2) [unfolded e])
  have d: "drop ?k ?r = drop (n + ?k) es"
    by (simp add: add.commute)
  show ?thesis
    unfolding replay_state_def len
    using kl n hd' s''(3) [unfolded e d]
    by (simp add: s''(2) [unfolded e] decoded_from_maps)
qed

lemma replay_state_drop:
  assumes rs: "replay_state es n s" and m: "m \<le> length (rr_queue s)"
  shows "replay_state es (n + m) (s\<lparr>rr_queue := drop m (rr_queue s)\<rparr>)"
proof -
  let ?q = "rr_queue s"
  have len: "n + length ?q \<le> length es"
    and k: "map entry_kind ?q = map entry_kind (take (length ?q) (drop n es))"
    and p: "map prog_point ?q = map prog_point (take (length ?q) (drop n es))"
    and r: "replaying s (concat (map item_bytes (drop (n + length ?q) es)))"
    and hd: "map_option last_prog_point (rr_nondet_log s) = Some (prog_point (last es))"
    using rs by (simp_all only: replay_state_def)
  have "drop m (map entry_kind ?q) = drop m (map entry_kind (take (length ?q) (drop n es)))"
    by (simp only: k)
  then have k': "map entry_kind (drop m ?q)
                   = map entry_kind (take (length ?q - m) (drop (n + m) es))"
    by (simp add: drop_map drop_take add.commute)
  have "drop m (map prog_point ?q) = drop m (map prog_point (take (length ?q) (drop n es)))"
    by (simp only: p)
  then have p': "map prog_point (drop m ?q)
                   = map prog_point (take (length ?q - m) (drop (n + m) es))"
    by (simp add: drop_map drop_take add.commute)
  have i: "n + m + (length ?q - m) = n + length ?q"
    using m by simp
  show ?thesis
    unfolding replay_state_def
    using len k' p' r hd m by (simp add: i)
qed

lemma replay_state_nth:
  assumes rs: "replay_state es n s" and j: "j < length (rr_queue s)"
  shows "entry_kind (rr_queue s ! j) = entry_kind (es ! (n + j))"
proof -
  let ?q = "rr_queue s"
  have len: "n + length ?q \<le> length es"
    and k: "map entry_kind ?q = map entry_kind (take (length ?q) (drop n es))"
    using rs by (simp_all only: replay_state_def)
  have "map entry_kind ?q ! j = map entry_kind (take (length ?q) (drop n es)) ! j"
    by (simp only: k)
  then show ?thesis
    using j len by simp
qed

text \<open>Entries leave the queue at its head; the RR_LAST entry is not among them.\<close>

lemma session_replay_drop:
  assumes l: "session_log xs x"
    and rs: "replay_state (xs @ [x]) n s" and n: "n \<le> length xs"
    and m: "m \<le> length (rr_queue s)"
    and c: "drop m (rr_queue s) \<noteq> [] \<or> m = 0
            \<or> entry_kind (rr_queue s ! (m - 1)) \<noteq> RR_LAST"
  shows "session_replay xs x (s\<lparr>rr_queue := drop m (rr_queue s)\<rparr>)"
proof -
  define es where "es = xs @ [x]"
  have le: "length es = Suc (length xs)" and la: "es ! length xs = x"
    by (simp_all add: es_def)
  have rs': "replay_state es n s" using rs by (simp only: es_def)
  have len: "n + length (rr_queue s) \<le> length es"
    using rs' by (simp only: replay_state_def)
  have r: "replay_state es (n + m) (s\<lparr>rr_queue := drop m (rr_queue s)\<rparr>)"
    by (rule replay_state_drop [OF rs' m])
  have "n + m \<le> length xs"
  proof (rule ccontr)
    assume "\<not> n + m \<le> length xs"
    then have e: "n + m = Suc (length xs)"
      using len m le by simp
    then have m0: "0 < m" using n by simp
    have "length (rr_queue s) \<le> m" using len e le by simp
    then have d: "drop m (rr_queue s) = []" by simp
    have j: "m - 1 < length (rr_queue s)" using m m0 by simp
    have "entry_kind (rr_queue s ! (m - 1)) = entry_kind (es ! (n + (m - 1)))"
      by (rule replay_state_nth [OF rs' j])
    moreover have "n + (m - 1) = length xs" using e m0 by simp
    ultimately have "entry_kind (rr_queue s ! (m - 1)) = RR_LAST"
      using la l by (simp add: session_log_def)
    then show False using c d m0 by simp
  qed
  then show ?thesis
    using r by (auto simp: session_replay_def es_def)
qed

lemma session_replay_fill:
  assumes l: "session_log xs x" and sr: "session_replay xs x s"
    and f: "rr_fill_queue h s = Inr s'"
  shows "session_replay xs x s'"
proof -
  obtain n where n: "n \<le> length xs" "replay_state (xs @ [x]) n s"
    using sr by (auto simp: session_replay_def)
  have q: "rr_queue s = []" by (rule rr_fill_queue_filled(1) [OF f])
  have w: "\<forall>e \<in> set (xs @ [x]). variant_writable (variant e)"
    using l by (simp add: session_log_def list_all_iff)
  have "replay_state (xs @ [x]) n s'"
    by (rule replay_state_fill [OF n(2) q w f])
  then show ?thesis using n(1) by (auto simp: session_replay_def)
qed

lemma skipped_drop: "\<exists>j. j \<le> length q \<and> skipped kind q = drop j q"
proof (cases "kind = RR_INTERRUPT_REQUEST \<or> kind = RR_SKIPPED_CALL")
  case True
  then have "skipped kind q = drop 0 q" by (auto simp: skipped_def)
  then show ?thesis by (intro exI [of _ 0]) simp
next
  case False
  let ?j = "length (takeWhile (\<lambda>e. entry_kind e = RR_DEBUG) q)"
  have 1: "skipped kind q = drop ?j q"
    using False by (simp add: skipped_def dropWhile_eq_drop)
  have 2: "?j \<le> length q"
    by (rule length_takeWhile_le)
  show ?thesis
    by (rule exI [of _ ?j], rule conjI [OF 2 1])
qed

lemma get_next_entry_session_replay:
  assumes l: "session_log xs x" and sr: "session_replay xs x s"
    and k: "kind \<noteq> RR_LAST"
    and g: "get_next_entry h kind call_site check_callsite s = Inr (r, s')"
  shows "session_replay xs x s'"
proof -
  from get_next_entry_result [OF g]
  obtain s1 where s1:
    "rr_queue s \<noteq> [] \<and> s1 = s \<or> rr_queue s = [] \<and> rr_fill_queue h s = Inr s1"
    and c: "rr_queue s1 = [] \<and> r = None \<and> s' = s1
            \<or> (\<exists>head rest. rr_queue s1 \<noteq> [] \<and> skipped kind (rr_queue s1) = head # rest
                  \<and> (due h (rr_prog_point s1) kind call_site check_callsite head
                        \<and> r = Some head \<and> s' = s1\<lparr>rr_queue := rest\<rparr>
                      \<or> \<not> due h (rr_prog_point s1) kind call_site check_callsite head
                        \<and> r = None \<and> s' = s1\<lparr>rr_queue := head # rest\<rparr>))"
    by blast
  have sr1: "session_replay xs x s1"
    using s1 sr session_replay_fill [OF l sr, of h s1] by auto
  then obtain n where n: "n \<le> length xs" "replay_state (xs @ [x]) n s1"
    by (auto simp: session_replay_def)
  let ?q = "rr_queue s1"
  from c show ?thesis
  proof
    assume "rr_queue s1 = [] \<and> r = None \<and> s' = s1"
    then show ?thesis using sr1 by simp
  next
    assume "\<exists>head rest. rr_queue s1 \<noteq> [] \<and> skipped kind (rr_queue s1) = head # rest
                  \<and> (due h (rr_prog_point s1) kind call_site check_callsite head
                        \<and> r = Some head \<and> s' = s1\<lparr>rr_queue := rest\<rparr>
                      \<or> \<not> due h (rr_prog_point s1) kind call_site check_callsite head
                        \<and> r = None \<and> s' = s1\<lparr>rr_queue := head # rest\<rparr>)"
    then obtain head rest where hr: "skipped kind ?q = head # rest"
      and d: "due h (rr_prog_point s1) kind call_site check_callsite head
                \<and> s' = s1\<lparr>rr_queue := rest\<rparr>
              \<or> s' = s1\<lparr>rr_queue := head # rest\<rparr>"
      by blast
    obtain j where j: "j \<le> length ?q" "skipped kind ?q = drop j ?q"
      using skipped_drop [of ?q kind] by blast
    have dj: "drop j ?q = head # rest" using hr j(2) by simp
    then have jl: "j < length ?q"
      using j(1) by (cases "j = length ?q") simp_all
    have hj: "?q ! j = head"
      using dj jl by (metis Cons_nth_drop_Suc list.inject)
    have rj: "drop (Suc j) ?q = rest"
      using dj jl by (metis Cons_nth_drop_Suc list.inject)
    from d show ?thesis
    proof
      assume a: "due h (rr_prog_point s1) kind call_site check_callsite head
                   \<and> s' = s1\<lparr>rr_queue := rest\<rparr>"
      then have "entry_kind head = kind" by (simp add: due_def)
      then have nl: "entry_kind (?q ! (Suc j - 1)) \<noteq> RR_LAST"
        using k hj by simp
      have "session_replay xs x (s1\<lparr>rr_queue := drop (Suc j) ?q\<rparr>)"
        by (rule session_replay_drop [OF l n(2) n(1)]) (use jl nl in simp_all)
      then show ?thesis using a rj by simp
    next
      assume a: "s' = s1\<lparr>rr_queue := head # rest\<rparr>"
      have "session_replay xs x (s1\<lparr>rr_queue := drop j ?q\<rparr>)"
        by (rule session_replay_drop [OF l n(2) n(1) j(1)]) (simp add: dj)
      then show ?thesis using a dj by simp
    qed
  qed
qed

lemma rr_replay_debug_session_replay:
  assumes l: "session_log xs x" and sr: "session_replay xs x s"
  shows "session_replay xs x (rr_replay_debug call_site s)"
proof (cases "rr_queue s")
  case Nil
  then show ?thesis using sr by (simp add: rr_replay_debug_def)
next
  case (Cons head rest)
  obtain n where n: "n \<le> length xs" "replay_state (xs @ [x]) n s"
    using sr by (auto simp: session_replay_def)
  show ?thesis
  proof (cases "entry_kind head = RR_DEBUG
                \<and> \<not> guest_instr_count (rr_prog_point s) < guest_instr_count (prog_point head)")
    case True
    have "session_replay xs x (s\<lparr>rr_queue := drop 1 (rr_queue s)\<rparr>)"
      by (rule session_replay_drop [OF l n(2) n(1)]) (use True Cons in simp_all)
    then show ?thesis
      using True Cons by (simp add: rr_replay_debug_def unlink_head_def)
  next
    case False
    then have "rr_replay_debug call_site s = s"
      using Cons by (auto simp: rr_replay_debug_def)
    then show ?thesis using sr by simp
  qed
qed

lemma rr_replay_input_session_replay:
  assumes l: "session_log xs x" and sr: "session_replay xs x s"
    and k: "kind \<noteq> RR_LAST"
    and a: "rr_replay_input kind member h call_site s = Inr (v, s')"
  shows "session_replay xs x s'"
proof -
  obtain r s1 where g: "get_next_entry h kind call_site False s = Inr (r, s1)"
    using a by (cases "get_next_entry h kind call_site False s")
               (auto simp: rr_replay_input_def)
  obtain item where "r = Some item" "s' = add_to_recycle_list item s1"
    using a g by (cases r) (auto simp: rr_replay_input_def split: if_splits)
  then show ?thesis
    using get_next_entry_session_replay [OF l sr k g] by simp
qed

lemma rr_replay_exit_request_session_replay:
  assumes l: "session_log xs x" and sr: "session_replay xs x s"
    and a: "rr_replay_exit_request h call_site s = Inr (v, s')"
  shows "session_replay xs x s'"
proof -
  obtain r s1 where g: "get_next_entry h RR_EXIT_REQUEST call_site False s = Inr (r, s1)"
    using a by (cases "get_next_entry h RR_EXIT_REQUEST call_site False s")
               (auto simp: rr_replay_exit_request_def)
  have s1: "session_replay xs x s1"
    by (rule get_next_entry_session_replay [OF l sr _ g]) simp
  show ?thesis
  proof (cases r)
    case None
    then show ?thesis using a g s1 by (simp add: rr_replay_exit_request_def)
  next
    case (Some item)
    then have "s' = add_to_recycle_list item s1"
      using a g by (auto simp: rr_replay_exit_request_def split: if_splits)
    then show ?thesis using s1 by simp
  qed
qed

lemma rr_replay_interrupt_request_session_replay:
  assumes l: "session_log xs x" and sr: "session_replay xs x s"
    and a: "rr_replay_interrupt_request h call_site s = Inr (v, s')"
  shows "session_replay xs x s'"
proof -
  obtain r s1 where g: "get_next_entry h RR_INTERRUPT_REQUEST call_site True s = Inr (r, s1)"
    using a by (cases "get_next_entry h RR_INTERRUPT_REQUEST call_site True s")
               (auto simp: rr_replay_interrupt_request_def)
  have s1: "session_replay xs x s1"
    by (rule get_next_entry_session_replay [OF l sr _ g]) simp
  show ?thesis
  proof (cases r)
    case None
    then show ?thesis using a g s1 by (simp add: rr_replay_interrupt_request_def)
  next
    case (Some item)
    let ?s2 = "add_to_recycle_list item
                 (s1\<lparr>panda_current_interrupt_request := interrupt_request (variant item)\<rparr>)"
    have f: "rr_fill_queue h ?s2 = Inr s'"
      using a g Some
      by (cases "rr_fill_queue h ?s2") (auto simp: rr_replay_interrupt_request_def)
    have "session_replay xs x ?s2" using s1 by simp
    then show ?thesis by (rule session_replay_fill [OF l _ f])
  qed
qed

lemma rr_replay_skipped_calls_round_session_replay:
  assumes l: "session_log xs x" and sr: "session_replay xs x s"
    and a: "rr_replay_skipped_calls_round h call_site s = Inr (d, s')"
  shows "session_replay xs x s'"
proof -
  obtain r s1 where g: "get_next_entry h RR_SKIPPED_CALL call_site False s = Inr (r, s1)"
    using a by (cases "get_next_entry h RR_SKIPPED_CALL call_site False s")
               (auto simp: rr_replay_skipped_calls_round_def)
  have s1: "session_replay xs x s1"
    by (rule get_next_entry_session_replay [OF l sr _ g]) simp
  show ?thesis
  proof (cases r)
    case None
    then have "s' = s1" using a g by (simp add: rr_replay_skipped_calls_round_def)
    then show ?thesis using s1 by simp
  next
    case (Some item)
    obtain s2 where e: "(case variant item of
                Call_args args \<Rightarrow> apply_skipped_call args s1
              | _ \<Rightarrow> Inl Assert_skipped_call_kind) = Inr s2"
      using a g Some
      by (cases "case variant item of
                Call_args args \<Rightarrow> apply_skipped_call args s1
              | _ \<Rightarrow> Inl Assert_skipped_call_kind")
         (simp_all add: rr_replay_skipped_calls_round_def)
    obtain args where v: "variant item = Call_args args" "apply_skipped_call args s1 = Inr s2"
      using e by (cases "variant item") simp_all
    have "\<exists>g. s2 = s1\<lparr>guest_effects := g\<rparr>"
      using v(2) by (cases args) auto
    then have s2: "session_replay xs x s2" using s1 by auto
    let ?s3 = "add_to_recycle_list item s2"
    have s3: "session_replay xs x ?s3" using s2 by simp
    have res: "(if call_site = RR_CALLSITE_MAIN_LOOP_WAIT h \<and> rr_queue ?s3 = []
                then rr_bind (rr_fill_queue h ?s3) (\<lambda>s3. Inr (False, s3))
                else Inr (False, ?s3)) = Inr (d, s')"
      using a by (simp add: rr_replay_skipped_calls_round_def g Some e)
    show ?thesis
    proof (cases "call_site = RR_CALLSITE_MAIN_LOOP_WAIT h \<and> rr_queue ?s3 = []")
      case True
      then have "rr_fill_queue h ?s3 = Inr s'"
        using res by (cases "rr_fill_queue h ?s3") simp_all
      then show ?thesis by (rule session_replay_fill [OF l s3])
    next
      case False
      then have "s' = ?s3" using res by auto
      then show ?thesis using s3 by simp
    qed
  qed
qed

lemma rr_replay_skipped_calls_internal_session_replay:
  assumes "session_log xs x" "session_replay xs x s"
    "rr_replay_skipped_calls_internal h call_site s = Inr s'"
  shows "session_replay xs x s'"
  using assms
proof (induction h call_site s rule: rr_replay_skipped_calls_internal.induct)
  case (1 h call_site s)
  obtain d s1 where rd: "rr_replay_skipped_calls_round h call_site s = Inr (d, s1)"
    using "1.prems"(3)
    by (subst (asm) rr_replay_skipped_calls_internal.simps) (auto split: sum.splits)
  have s1: "session_replay xs x s1"
    by (rule rr_replay_skipped_calls_round_session_replay [OF "1.prems"(1,2) rd])
  show ?case
  proof (cases d)
    case True
    then have "s' = s1"
      using "1.prems"(3) rd by (subst (asm) rr_replay_skipped_calls_internal.simps) simp
    then show ?thesis using s1 by simp
  next
    case False
    then have rec: "rr_replay_skipped_calls_internal h call_site s1 = Inr s'"
      using "1.prems"(3) rd by (subst (asm) rr_replay_skipped_calls_internal.simps) simp
    show ?thesis
      by (rule "1.IH" [OF rd refl False "1.prems"(1) s1 rec])
  qed
qed

lemma do_replay_call_session_replay:
  assumes l: "session_log xs x" and sr: "session_replay xs x s"
    and a: "do_replay_call h call s = Inr s'"
  shows "session_replay xs x s'"
proof (cases call)
  case (Replay_debug cs)
  then show ?thesis using a rr_replay_debug_session_replay [OF l sr] by auto
next
  case (Replay_input_1 cs)
  then obtain v where "rr_replay_input RR_INPUT_1 input_1 h cs s = Inr (v, s')"
    using a by (cases "rr_replay_input_1 h cs s") (auto simp: rr_replay_input_1_def)
  then show ?thesis by (intro rr_replay_input_session_replay [OF l sr]) simp_all
next
  case (Replay_input_2 cs)
  then obtain v where "rr_replay_input RR_INPUT_2 input_2 h cs s = Inr (v, s')"
    using a by (cases "rr_replay_input_2 h cs s") (auto simp: rr_replay_input_2_def)
  then show ?thesis by (intro rr_replay_input_session_replay [OF l sr]) simp_all
next
  case (Replay_input_4 cs)
  then obtain v where "rr_replay_input RR_INPUT_4 input_4 h cs s = Inr (v, s')"
    using a by (cases "rr_replay_input_4 h cs s") (auto simp: rr_replay_input_4_def)
  then show ?thesis by (intro rr_replay_input_session_replay [OF l sr]) simp_all
next
  case (Replay_input_8 cs)
  then obtain v where "rr_replay_input RR_INPUT_8 input_8 h cs s = Inr (v, s')"
    using a by (cases "rr_replay_input_8 h cs s") (auto simp: rr_replay_input_8_def)
  then show ?thesis by (intro rr_replay_input_session_replay [OF l sr]) simp_all
next
  case (Replay_interrupt_request cs)
  then obtain v where "rr_replay_interrupt_request h cs s = Inr (v, s')"
    using a by (cases "rr_replay_interrupt_request h cs s") auto
  then show ?thesis by (rule rr_replay_interrupt_request_session_replay [OF l sr])
next
  case (Replay_exit_request cs)
  then obtain v where "rr_replay_exit_request h cs s = Inr (v, s')"
    using a by (cases "rr_replay_exit_request h cs s") auto
  then show ?thesis by (rule rr_replay_exit_request_session_replay [OF l sr])
next
  case (Replay_skipped_calls cs)
  then show ?thesis
    using a rr_replay_skipped_calls_internal_session_replay [OF l sr, of h cs s'] by simp
qed

lemma rr_replay_calls_session_replay:
  assumes "session_log xs x" "session_replay xs x s" "rr_replay_calls h calls s = Inr s'"
  shows "session_replay xs x s'"
  using assms
proof (induction calls arbitrary: s)
  case Nil
  then show ?case by simp
next
  case (Cons a calls)
  obtain pp call where a: "a = (pp, call)" by (cases a)
  obtain s1 where s1: "do_replay_call h call (guest_at pp s) = Inr s1"
    "rr_replay_calls h calls s1 = Inr s'"
    using Cons.prems(3)
    by (cases "do_replay_call h call (guest_at pp s)") (simp_all add: a)
  have "session_replay xs x (guest_at pp s)" using Cons.prems(2) by simp
  then have "session_replay xs x s1"
    by (rule do_replay_call_session_replay [OF Cons.prems(1) _ s1(1)])
  then show ?case by (rule Cons.IH [OF Cons.prems(1) _ s1(2)])
qed

lemma end_record_log:
  assumes "rr_record_calls calls (rr_do_begin_record s0) = Inr s1"
    and "rr_do_end_record h (guest_at pp s1) = Inr s2"
  shows "log_file s2 = prog_point_bytes pp
           @ concat (map item_bytes
               (session_entries calls (panda_current_interrupt_request s0)
                  @ [entry_at pp (RR_CALLSITE_LAST h) Last]))"
proof -
  have r1: "recording s1"
    and f1: "log_file s1 = prog_point_bytes zero_prog_point
               @ concat (map item_bytes
                   (session_entries calls (panda_current_interrupt_request s0)))"
    using rr_record_calls_recording [OF recording_begin assms(1)] by simp_all
  have "rr_do_end_record h (guest_at pp s1) = Inr (closed h (guest_at pp s1))"
    using rr_do_end_record_recording [of "guest_at pp s1" h] r1 by simp
  then have "s2 = closed h (guest_at pp s1)"
    using assms(2) by simp
  then show ?thesis
    by (simp add: closed_def f1 new_item_def entry_at_def)
qed

text \<open>
  C6 (end of replay). Take any record session, closed by \<^verbatim>\<open>rr_do_end_record\<close> at the
  final program point, and a process that has the log file of the session and an empty
  queue. \<^verbatim>\<open>rr_do_begin_replay\<close> succeeds there: the header it reads into
  \<^verbatim>\<open>last_prog_point\<close> is the final program point, and the queue holds the first entries
  of the session, as many as \<^verbatim>\<open>rr_fill_queue\<close> takes. In that state, and in every state
  that a run of replay calls reaches from it, wherever the guest stands,
  \<^verbatim>\<open>rr_replay_finished\<close> returns true exactly when the guest instruction count is at
  least the instruction count of the header and the head of the queue is an RR_LAST
  entry.
\<close>

theorem replay_finished_in_session:
  assumes "rr_record_calls calls (rr_do_begin_record s0) = Inr s1"
    and "rr_do_end_record h (guest_at pp s1) = Inr s2"
    and "log_file t = log_file s2" and "rr_queue t = []"
  shows "\<exists>s3 l. rr_do_begin_replay h t = Inr s3
           \<and> rr_nondet_log s3 = Some l \<and> last_prog_point l = pp
           \<and> map entry_kind (rr_queue s3)
               = map entry_kind
                   (take (fill_count h 0
                            (session_entries calls (panda_current_interrupt_request s0)
                               @ [entry_at pp (RR_CALLSITE_LAST h) Last]))
                      (session_entries calls (panda_current_interrupt_request s0)
                         @ [entry_at pp (RR_CALLSITE_LAST h) Last]))
           \<and> (\<forall>g. rr_replay_finished (guest_at g s3)
                     = Inr (guest_instr_count (last_prog_point l)
                              \<le> rr_get_guest_instr_count (guest_at g s3)
                            \<and> (case rr_queue (guest_at g s3) of
                                 [] \<Rightarrow> False
                               | head # rest \<Rightarrow> entry_kind head = RR_LAST)))
           \<and> (\<forall>run s. rr_replay_calls h run s3 = Inr s \<longrightarrow>
                 (\<exists>l'. rr_nondet_log s = Some l' \<and> last_prog_point l' = pp
                    \<and> (\<forall>g. rr_replay_finished (guest_at g s)
                             = Inr (guest_instr_count (last_prog_point l')
                                      \<le> rr_get_guest_instr_count (guest_at g s)
                                    \<and> (case rr_queue (guest_at g s) of
                                         [] \<Rightarrow> False
                                       | head # rest \<Rightarrow> entry_kind head = RR_LAST)))))"
proof -
  let ?xs = "session_entries calls (panda_current_interrupt_request s0)"
  let ?x = "entry_at pp (RR_CALLSITE_LAST h) Last"
  have r1: "recording s1"
    and f1: "log_file s1 = prog_point_bytes zero_prog_point @ concat (map item_bytes ?xs)"
    and w1: "\<forall>e \<in> set ?xs. variant_writable (variant e)"
    using rr_record_calls_recording [OF recording_begin assms(1)] by simp_all
  have "rr_do_end_record h (guest_at pp s1) = Inr (closed h (guest_at pp s1))"
    using rr_do_end_record_recording [of "guest_at pp s1" h] r1 by simp
  then have s2: "s2 = closed h (guest_at pp s1)"
    using assms(2) by simp
  have f: "log_file t = prog_point_bytes pp @ concat (map item_bytes (?xs @ [?x]))"
    by (simp add: assms(3) s2 closed_def f1 new_item_def entry_at_def)
  have w: "\<forall>e \<in> set (?xs @ [?x]). variant_writable (variant e)"
    using w1 by simp
  obtain s3 where s3: "rr_do_begin_replay h t = Inr s3" "replay_state (?xs @ [?x]) 0 s3"
    "rr_queue s3 = decoded_from 24 (take (fill_count h 0 (?xs @ [?x])) (?xs @ [?x]))"
    using rr_do_begin_replay_session [OF f w assms(4), of h] by auto
  have k: "map entry_kind (rr_queue s3)
             = map entry_kind (take (fill_count h 0 (?xs @ [?x])) (?xs @ [?x]))"
    by (simp only: s3(3) decoded_from_maps)
  have x: "entry_kind ?x = RR_LAST" by simp
  have sl: "session_log ?xs ?x"
    using session_entries_not_last [of calls "panda_current_interrupt_request s0"] w
    by (auto simp: session_log_def list_all_iff)
  have sr3: "session_replay ?xs ?x s3"
    using s3(2) by (auto simp: session_replay_def)
  have fin: "\<exists>l. rr_nondet_log (guest_at g s) = Some l \<and> last_prog_point l = prog_point ?x
           \<and> rr_replay_finished (guest_at g s)
               = Inr (guest_instr_count (last_prog_point l)
                        \<le> rr_get_guest_instr_count (guest_at g s)
                      \<and> (case rr_queue (guest_at g s) of [] \<Rightarrow> False
                          | head # rest \<Rightarrow> entry_kind head = RR_LAST))"
    if sr: "session_replay ?xs ?x s" for g s
  proof -
    obtain n where n: "n \<le> length ?xs" "replay_state (?xs @ [?x]) n s"
      using sr by (auto simp: session_replay_def)
    have a: "replay_state (?xs @ [?x]) n (guest_at g s)"
      by (simp only: replay_state_guest_at n(2))
    show ?thesis
      by (rule replay_state_finished [OF a n(1) x session_entries_not_last])
  qed
  have fin': "\<exists>l. rr_nondet_log s = Some l \<and> last_prog_point l = pp
           \<and> (\<forall>g. rr_replay_finished (guest_at g s)
               = Inr (guest_instr_count (last_prog_point l)
                        \<le> rr_get_guest_instr_count (guest_at g s)
                      \<and> (case rr_queue (guest_at g s) of [] \<Rightarrow> False
                          | head # rest \<Rightarrow> entry_kind head = RR_LAST)))"
    if sr: "session_replay ?xs ?x s" for s
  proof -
    obtain l where l: "rr_nondet_log s = Some l" "last_prog_point l = pp"
      using fin [OF sr, of pp] by (auto simp: guest_at_def)
    have "rr_replay_finished (guest_at g s)
               = Inr (guest_instr_count (last_prog_point l)
                        \<le> rr_get_guest_instr_count (guest_at g s)
                      \<and> (case rr_queue (guest_at g s) of [] \<Rightarrow> False
                          | head # rest \<Rightarrow> entry_kind head = RR_LAST))" for g
      using fin [OF sr, of g] l(1) by (auto simp: guest_at_def)
    then show ?thesis using l by blast
  qed
  obtain l where l: "rr_nondet_log s3 = Some l" "last_prog_point l = pp"
    "\<forall>g. rr_replay_finished (guest_at g s3)
               = Inr (guest_instr_count (last_prog_point l)
                        \<le> rr_get_guest_instr_count (guest_at g s3)
                      \<and> (case rr_queue (guest_at g s3) of [] \<Rightarrow> False
                          | head # rest \<Rightarrow> entry_kind head = RR_LAST))"
    using fin' [OF sr3] by blast
  have run: "\<forall>run s. rr_replay_calls h run s3 = Inr s \<longrightarrow>
                 (\<exists>l'. rr_nondet_log s = Some l' \<and> last_prog_point l' = pp
                    \<and> (\<forall>g. rr_replay_finished (guest_at g s)
                             = Inr (guest_instr_count (last_prog_point l')
                                      \<le> rr_get_guest_instr_count (guest_at g s)
                                    \<and> (case rr_queue (guest_at g s) of
                                         [] \<Rightarrow> False
                                       | head # rest \<Rightarrow> entry_kind head = RR_LAST))))"
  proof (intro allI impI)
    fix run s
    assume "rr_replay_calls h run s3 = Inr s"
    then have "session_replay ?xs ?x s"
      by (rule rr_replay_calls_session_replay [OF sl sr3])
    then show "\<exists>l'. rr_nondet_log s = Some l' \<and> last_prog_point l' = pp
                    \<and> (\<forall>g. rr_replay_finished (guest_at g s)
                             = Inr (guest_instr_count (last_prog_point l')
                                      \<le> rr_get_guest_instr_count (guest_at g s)
                                    \<and> (case rr_queue (guest_at g s) of
                                         [] \<Rightarrow> False
                                       | head # rest \<Rightarrow> entry_kind head = RR_LAST)))"
      by (rule fin')
  qed
  show ?thesis
    by (rule exI [of _ s3], rule exI [of _ l], intro conjI) (rule s3(1) l k run)+
qed

theorem replay_finished_in_session_witness:
  "\<exists>s1 s2 s3 s4.
       rr_record_calls [(pp_of 10, Record_input_1 1 0x42)]
         (rr_do_begin_record (rr_initial_state [])) = Inr s1
     \<and> rr_do_end_record rr_log_h_model (guest_at (pp_of 13) s1) = Inr s2
     \<and> rr_do_begin_replay rr_log_h_model (rr_initial_state (log_file s2)) = Inr s3
     \<and> map entry_kind (rr_queue s3) = [RR_INPUT_1, RR_LAST]
     \<and> rr_replay_finished (guest_at (pp_of 13) s3) = Inr False
     \<and> rr_replay_calls rr_log_h_model [(pp_of 10, Replay_input_1 1)] s3 = Inr s4
     \<and> map entry_kind (rr_queue s4) = [RR_LAST]
     \<and> rr_replay_finished (guest_at (pp_of 12) s4) = Inr False
     \<and> rr_replay_finished (guest_at (pp_of 13) s4) = Inr True"
proof -
  let ?h = rr_log_h_model
  let ?calls = "[(pp_of 10, Record_input_1 1 0x42)]"
  let ?i = "entry_at (pp_of 10) 1 (Input_1 0x42)"
  let ?x = "entry_at (pp_of 13) (RR_CALLSITE_LAST ?h) Last"
  let ?s0 = "rr_do_begin_record (rr_initial_state [])"
  have "\<exists>s1. rr_record_calls ?calls ?s0 = Inr s1"
    by (simp add: do_record_call_recording record_entries_def entry_at_def
          del: do_record_call.simps)
  then obtain s1 where s1: "rr_record_calls ?calls ?s0 = Inr s1" by blast
  obtain s2 where s2: "rr_do_end_record ?h (guest_at (pp_of 13) s1) = Inr s2"
    using rr_do_end_record_recording [of "guest_at (pp_of 13) s1" ?h]
      rr_record_calls_recording [OF recording_begin s1] by simp
  let ?t = "rr_initial_state (log_file s2)"
  have f: "log_file ?t = log_file s2" by (simp add: rr_initial_state_def)
  have q: "rr_queue ?t = []" by (simp add: rr_initial_state_def)
  have es: "session_entries ?calls (panda_current_interrupt_request (rr_initial_state []))
              @ [?x] = [?i, ?x]"
    by simp
  have c: "fill_count ?h 0 [?i, ?x] = 2"
    by (simp add: boundary_def RR_MAX_QUEUE_LEN_def)
  let ?P = "\<lambda>s3 l.
       rr_do_begin_replay ?h ?t = Inr s3
     \<and> rr_nondet_log s3 = Some l \<and> last_prog_point l = pp_of 13
     \<and> map entry_kind (rr_queue s3)
         = map entry_kind
             (take (fill_count ?h 0
                      (session_entries ?calls (panda_current_interrupt_request (rr_initial_state []))
                         @ [?x]))
                (session_entries ?calls (panda_current_interrupt_request (rr_initial_state []))
                   @ [?x]))
     \<and> (\<forall>g. rr_replay_finished (guest_at g s3)
               = Inr (guest_instr_count (last_prog_point l)
                        \<le> rr_get_guest_instr_count (guest_at g s3)
                      \<and> (case rr_queue (guest_at g s3) of
                           [] \<Rightarrow> False
                         | head # rest \<Rightarrow> entry_kind head = RR_LAST)))
     \<and> (\<forall>run s. rr_replay_calls ?h run s3 = Inr s \<longrightarrow>
           (\<exists>l'. rr_nondet_log s = Some l' \<and> last_prog_point l' = pp_of 13
              \<and> (\<forall>g. rr_replay_finished (guest_at g s)
                       = Inr (guest_instr_count (last_prog_point l')
                                \<le> rr_get_guest_instr_count (guest_at g s)
                              \<and> (case rr_queue (guest_at g s) of
                                   [] \<Rightarrow> False
                                 | head # rest \<Rightarrow> entry_kind head = RR_LAST)))))"
  have "\<exists>s3 l. ?P s3 l"
    by (rule replay_finished_in_session [OF s1 s2 f q])
  then obtain s3 where "\<exists>l. ?P s3 l" ..
  then obtain l where t: "?P s3 l" ..
  note s3 = t [THEN conjunct1]
    t [THEN conjunct2, THEN conjunct2, THEN conjunct2, THEN conjunct1]
    t [THEN conjunct2, THEN conjunct2, THEN conjunct2, THEN conjunct2, THEN conjunct1]
    t [THEN conjunct2, THEN conjunct2, THEN conjunct2, THEN conjunct2, THEN conjunct2]
    t [THEN conjunct2, THEN conjunct2, THEN conjunct1]
  have k3: "map entry_kind (rr_queue s3) = [RR_INPUT_1, RR_LAST]"
    using s3(2) by (simp only: es c) simp
  then obtain a b where q3: "rr_queue s3 = [a, b]" "entry_kind a = RR_INPUT_1"
    "entry_kind b = RR_LAST"
    by auto
  have 0: "rr_replay_finished (guest_at (pp_of 13) s3) = Inr False"
    by (simp only: s3(3) [rule_format] s3(5)) (simp add: q3)
  have fl: "log_file s2 = prog_point_bytes (pp_of 13) @ concat (map item_bytes [?i, ?x])"
    using end_record_log [OF s1 s2] by (simp only: es)
  have w: "\<forall>e \<in> set [?i, ?x]. variant_writable (variant e)" by simp
  have "\<exists>s. rr_do_begin_replay ?h ?t = Inr s
           \<and> rr_queue s = decoded_from 24 (take (fill_count ?h 0 [?i, ?x]) [?i, ?x])"
    using rr_do_begin_replay_session [of ?t "pp_of 13" "[?i, ?x]" ?h] fl w q
    by (auto simp: rr_initial_state_def)
  then have q3': "rr_queue s3 = [decoded 24 ?i, decoded (24 + length (item_bytes ?i)) ?x]"
    using s3(1) by (simp only: c) auto
  let ?s4 = "add_to_recycle_list (decoded 24 ?i)
               ((guest_at (pp_of 10) s3)
                  \<lparr>rr_queue := [decoded (24 + length (item_bytes ?i)) ?x]\<rparr>)"
  have g: "get_next_entry ?h RR_INPUT_1 1 False (guest_at (pp_of 10) s3)
             = Inr (Some (decoded 24 ?i),
                    (guest_at (pp_of 10) s3)
                      \<lparr>rr_queue := [decoded (24 + length (item_bytes ?i)) ?x]\<rparr>)"
    by (simp add: get_next_entry_unfold q3' skipped_def rr_log_h_model_def
          rr_prog_point_compare_model_def pp_of_def)
  have r: "rr_replay_calls ?h [(pp_of 10, Replay_input_1 1)] s3 = Inr ?s4"
    by (simp add: rr_replay_input_1_def rr_replay_input_def g)
  have k4: "map entry_kind (rr_queue ?s4) = [RR_LAST]"
    by simp
  from s3(4) [rule_format, OF r]
  obtain l' where lc:
    "rr_nondet_log ?s4 = Some l' \<and> last_prog_point l' = pp_of 13
     \<and> (\<forall>g. rr_replay_finished (guest_at g ?s4)
           = Inr (guest_instr_count (last_prog_point l')
                    \<le> rr_get_guest_instr_count (guest_at g ?s4)
                  \<and> (case rr_queue (guest_at g ?s4) of
                       [] \<Rightarrow> False
                     | head # rest \<Rightarrow> entry_kind head = RR_LAST)))" ..
  note l' = lc [THEN conjunct2, THEN conjunct1] lc [THEN conjunct2, THEN conjunct2]
  have 1: "rr_replay_finished (guest_at (pp_of 12) ?s4) = Inr False"
    by (simp only: l'(2) [rule_format] l'(1))
       (simp add: rr_get_guest_instr_count_def guest_at_def pp_of_def)
  have 2: "rr_replay_finished (guest_at (pp_of 13) ?s4) = Inr True"
    by (simp only: l'(2) [rule_format] l'(1))
       (simp add: rr_get_guest_instr_count_def guest_at_def pp_of_def
          add_to_recycle_list_def)
  show ?thesis
    by (intro exI conjI) (rule s1 s2 s3(1) k3 0 r k4 1 2)+
qed

end
